theory Spec2Isabelle
  imports Main "HOL-Library.Word"
begin

unbundle bit_operations_syntax

section \<open>The bytecode graph of \<^verbatim>\<open>bytecode_graph.py\<close>\<close>

text \<open>
  The module keeps the instructions of a Python 2 code object as objects of class
  \<^verbatim>\<open>Bytecode\<close>, linked by \<^verbatim>\<open>prev\<close>/\<^verbatim>\<open>next\<close>, with the jump targets and the
  cross references stored as object references. Objects are modelled by an explicit store:
  a reference is a natural number and the store maps every reference to the fields of its
  object. Every method takes the graph and returns the updated graph.

  A method can raise, and a traversal of a cyclic \<^verbatim>\<open>next\<close> chain never ends. A result is
  \<open>None\<close> when the method does not return, \<open>Some (Inl e)\<close> when it raises \<open>e\<close> and
  \<open>Some (Inr v)\<close> when it returns \<open>v\<close>. The state a raising method leaves behind is not
  part of the result.
\<close>

subsection \<open>Errors and results\<close>

datatype error = KeyError | IndexError | TypeError | AttributeError | StructError

type_synonym 'a result = "(error + 'a) option"

definition bind_result :: "'a result \<Rightarrow> ('a \<Rightarrow> 'b result) \<Rightarrow> 'b result" where
  "bind_result m f =
     (case m of None \<Rightarrow> None | Some (Inl e) \<Rightarrow> Some (Inl e) | Some (Inr v) \<Rightarrow> f v)"

definition map_result :: "('a \<Rightarrow> 'b) \<Rightarrow> 'a result \<Rightarrow> 'b result" where
  "map_result f m = bind_result m (\<lambda>v. Some (Inr (f v)))"

subsection \<open>The opcode tables of \<^verbatim>\<open>dis\<close>\<close>

text \<open>
  \<^verbatim>\<open>dis.HAVE_ARGUMENT\<close>, \<^verbatim>\<open>dis.hasjrel\<close> and \<^verbatim>\<open>dis.hasjabs\<close> come from the Python
  standard library, not from this module; they are a parameter of every definition.
  \<open>dis27\<close> holds the values of CPython 2.7.
\<close>

record dis =
  HAVE_ARGUMENT :: int
  hasjrel :: "int list"
  hasjabs :: "int list"

definition dis27 :: dis where
  "dis27 = \<lparr>HAVE_ARGUMENT = 90,
            hasjrel = [93, 110, 120, 121, 122, 143],
            hasjabs = [111, 112, 113, 114, 115, 119]\<rparr>"

subsection \<open>Class \<^verbatim>\<open>Bytecode\<close>\<close>

type_synonym byte = "8 word"
type_synonym ref = nat

text \<open>
  \<open>nxt\<close> is the field \<^verbatim>\<open>next\<close> and \<open>bc_lnotab\<close> the field \<^verbatim>\<open>co_lnotab\<close> of a node (its
  line number); \<^verbatim>\<open>oparg\<close> and the line number can be Python's \<^verbatim>\<open>None\<close>.
\<close>

record Bytecode =
  opcode :: int
  addr :: int
  oparg :: "int option"
  prev :: "ref option"
  nxt :: "ref option"
  xrefs :: "ref list"
  target :: "ref option"
  bc_lnotab :: "int option"

type_synonym heap = "ref \<Rightarrow> Bytecode"

text \<open>\<^verbatim>\<open>Bytecode.__init__\<close>: \<^verbatim>\<open>buffer[i]\<close> raises \<^verbatim>\<open>IndexError\<close> past the end of the slice.\<close>

definition Bytecode_init :: "dis \<Rightarrow> int \<Rightarrow> byte list \<Rightarrow> ref option \<Rightarrow> error + Bytecode" where
  "Bytecode_init D a buffer p =
     (case buffer of
        [] \<Rightarrow> Inl IndexError
      | b0 # rest \<Rightarrow>
          if uint b0 \<ge> HAVE_ARGUMENT D then
            (case rest of
               b1 # b2 # _ \<Rightarrow>
                 Inr \<lparr>opcode = uint b0, addr = a,
                      oparg = Some (uint b1 OR push_bit 8 (uint b2)),
                      prev = p, nxt = None, xrefs = [], target = None, bc_lnotab = None\<rparr>
             | _ \<Rightarrow> Inl IndexError)
          else
            Inr \<lparr>opcode = uint b0, addr = a, oparg = None,
                 prev = p, nxt = None, xrefs = [], target = None, bc_lnotab = None\<rparr>)"

text \<open>\<^verbatim>\<open>Bytecode.len\<close>\<close>

definition len :: "dis \<Rightarrow> Bytecode \<Rightarrow> nat" where
  "len D bc = (if opcode bc < HAVE_ARGUMENT D then 1 else 3)"

text \<open>
  \<^verbatim>\<open>struct.pack\<close> with the formats \<^verbatim>\<open>B\<close> and \<^verbatim>\<open><H\<close>: CPython 2.7 raises
  \<^verbatim>\<open>struct.error\<close> for a number outside the range of the format.
\<close>

definition pack_B :: "int \<Rightarrow> error + byte list" where
  "pack_B x = (if 0 \<le> x \<and> x \<le> 255 then Inr [word_of_int x] else Inl StructError)"

definition pack_H :: "int \<Rightarrow> error + byte list" where
  "pack_H x =
     (if 0 \<le> x \<and> x \<le> 65535 then Inr [word_of_int (x AND 255), word_of_int (drop_bit 8 x)]
      else Inl StructError)"

text \<open>\<^verbatim>\<open>Bytecode.bin\<close>\<close>

definition bin :: "dis \<Rightarrow> Bytecode \<Rightarrow> error + byte list" where
  "bin D bc =
     (if opcode bc \<ge> HAVE_ARGUMENT D then
        (case pack_B (opcode bc) of
           Inl e \<Rightarrow> Inl e
         | Inr b \<Rightarrow>
             (case oparg bc of
                None \<Rightarrow> Inl StructError
              | Some a \<Rightarrow> (case pack_H a of Inl e \<Rightarrow> Inl e | Inr bs \<Rightarrow> Inr (b @ bs))))
      else pack_B (opcode bc))"

text \<open>
  \<^verbatim>\<open>Bytecode.get_target_addr\<close>: two separate \<^verbatim>\<open>if\<close> statements, so the absolute rule
  wins for an opcode in both tables; adding \<^verbatim>\<open>None\<close> raises \<^verbatim>\<open>TypeError\<close>.
\<close>

definition get_target_addr :: "dis \<Rightarrow> Bytecode \<Rightarrow> error + int option" where
  "get_target_addr D bc =
     (case (if opcode bc \<in> set (hasjrel D) then
              (case oparg bc of
                 None \<Rightarrow> Inl TypeError
               | Some a \<Rightarrow> Inr (Some (addr bc + a + int (len D bc))))
            else Inr None) of
        Inl e \<Rightarrow> Inl e
      | Inr rvalue \<Rightarrow> if opcode bc \<in> set (hasjabs D) then Inr (oparg bc) else Inr rvalue)"

subsection \<open>Class \<^verbatim>\<open>BytecodeGraph\<close>\<close>

text \<open>
  Of the code object only \<^verbatim>\<open>co_code\<close>, \<^verbatim>\<open>co_firstlineno\<close> and \<^verbatim>\<open>co_lnotab\<close> are read;
  \<^verbatim>\<open>get_code\<close> copies every other field unchanged.
\<close>

record code =
  co_code :: "byte list"
  co_firstlineno :: int
  co_lnotab :: "byte list"

record BytecodeGraph =
  base :: int
  code :: code
  head :: "ref option"
  bytecodes :: "int \<rightharpoonup> ref"
  heap :: heap

text \<open>
  \<^verbatim>\<open>BytecodeGraph.nodes\<close>: the generator follows \<^verbatim>\<open>next\<close> until \<^verbatim>\<open>None\<close>. No loop of the
  module assigns \<^verbatim>\<open>next\<close> while it iterates, so the nodes it yields are those of the chain
  at the start of the loop. The generator is lazy: a loop whose body can raise
  (\<^verbatim>\<open>patch_opargs\<close>, \<^verbatim>\<open>calc_lnotab\<close>, the serialisation in \<^verbatim>\<open>get_code\<close>) raises at the
  first node that makes it, also on a chain that never ends, and is modelled node by node.
  A loop that is the first of its method and cannot raise (\<^verbatim>\<open>apply_labels\<close>,
  \<^verbatim>\<open>apply_lineno\<close>, \<^verbatim>\<open>refactor\<close>) passes the whole chain or never ends, and is modelled
  over the list of nodes.
\<close>

partial_function (option) nodes_from :: "heap \<Rightarrow> ref option \<Rightarrow> ref list option" where
  "nodes_from h current =
     (case current of
        None \<Rightarrow> Some []
      | Some c \<Rightarrow> Option.bind (nodes_from h (nxt (h c))) (\<lambda>rest. Some (c # rest)))"

declare nodes_from.simps [code]

definition nodes :: "BytecodeGraph \<Rightarrow> ref option \<Rightarrow> ref list option" where
  "nodes g start = nodes_from (heap g) (case start of None \<Rightarrow> head g | Some s \<Rightarrow> Some s)"

subsubsection \<open>\<^verbatim>\<open>apply_labels\<close>\<close>

fun clear_labels :: "heap \<Rightarrow> ref list \<Rightarrow> heap" where
  "clear_labels h [] = h"
| "clear_labels h (c # cs) = clear_labels (h(c := (h c)\<lparr>xrefs := [], target := None\<rparr>)) cs"

text \<open>
  The label of a node: \<open>-1\<close> unless the opcode takes an argument and is a jump. An
  absolute jump whose \<^verbatim>\<open>oparg\<close> is \<^verbatim>\<open>None\<close> has the label \<^verbatim>\<open>None\<close>, and
  \<^verbatim>\<open>None >= 0\<close> is false in Python 2.
\<close>

definition label_of :: "dis \<Rightarrow> Bytecode \<Rightarrow> error + int option" where
  "label_of D bc =
     (if opcode bc \<ge> HAVE_ARGUMENT D then
        if opcode bc \<in> set (hasjrel D) then
          (case oparg bc of
             None \<Rightarrow> Inl TypeError
           | Some a \<Rightarrow> Inr (Some (addr bc + a + int (len D bc))))
        else if opcode bc \<in> set (hasjabs D) then Inr (oparg bc)
        else Inr (Some (- 1))
      else Inr (Some (- 1)))"

definition apply_label :: "dis \<Rightarrow> (int \<rightharpoonup> ref) \<Rightarrow> heap \<Rightarrow> ref \<Rightarrow> error + heap" where
  "apply_label D bcs h c =
     (case label_of D (h c) of
        Inl e \<Rightarrow> Inl e
      | Inr None \<Rightarrow> Inr h
      | Inr (Some label) \<Rightarrow>
          if label \<ge> 0 then
            (case bcs label of
               None \<Rightarrow> Inl KeyError
             | Some t \<Rightarrow>
                 let h1 = (if c \<in> set (xrefs (h t)) then h
                           else h(t := (h t)\<lparr>xrefs := xrefs (h t) @ [c]\<rparr>))
                 in Inr (h1(c := (h1 c)\<lparr>target := Some t\<rparr>)))
          else Inr h)"

fun label_loop :: "dis \<Rightarrow> (int \<rightharpoonup> ref) \<Rightarrow> heap \<Rightarrow> ref list \<Rightarrow> error + heap" where
  "label_loop D bcs h [] = Inr h"
| "label_loop D bcs h (c # cs) =
     (case apply_label D bcs h c of Inl e \<Rightarrow> Inl e | Inr h' \<Rightarrow> label_loop D bcs h' cs)"

definition apply_labels :: "dis \<Rightarrow> BytecodeGraph \<Rightarrow> ref option \<Rightarrow> BytecodeGraph result" where
  "apply_labels D g start =
     (case nodes g start of
        None \<Rightarrow> None
      | Some ns \<Rightarrow>
          (case label_loop D (bytecodes g) (clear_labels (heap g) ns) ns of
             Inl e \<Rightarrow> Some (Inl e)
           | Inr h \<Rightarrow> Some (Inr (g\<lparr>heap := h\<rparr>))))"

subsubsection \<open>\<^verbatim>\<open>parse_bytecode\<close>\<close>

text \<open>
  The loop of \<^verbatim>\<open>parse_bytecode\<close>. \<open>k\<close> counts the objects created so far and is the
  reference of the next one. The new node is stored under the key \<^verbatim>\<open>self.base + offset\<close>;
  the length that advances the offset is read under the key \<^verbatim>\<open>offset\<close>.
\<close>

function parse_loop ::
  "dis \<Rightarrow> int \<Rightarrow> byte list \<Rightarrow> (int \<rightharpoonup> ref) \<Rightarrow> heap \<Rightarrow> ref option \<Rightarrow> nat \<Rightarrow> int list \<Rightarrow> ref
     \<Rightarrow> error + ((int \<rightharpoonup> ref) \<times> heap \<times> int list)" where
  "parse_loop D b cc bcs h prv offset targets k =
     (if offset < length cc then
        (case Bytecode_init D (b + int offset) (take 3 (drop offset cc)) prv of
           Inl e \<Rightarrow> Inl e
         | Inr bc \<Rightarrow>
             (case (bcs(b + int offset \<mapsto> k)) (int offset) of
                None \<Rightarrow> Inl KeyError
              | Some q \<Rightarrow>
                  (case get_target_addr D bc of
                     Inl e \<Rightarrow> Inl e
                   | Inr t \<Rightarrow>
                       parse_loop D b cc (bcs(b + int offset \<mapsto> k))
                         (case prv of
                            None \<Rightarrow> h(k := bc)
                          | Some p \<Rightarrow> (h(k := bc))(p := ((h(k := bc)) p)\<lparr>nxt := Some k\<rparr>))
                         (Some k)
                         (offset + len D ((h(k := bc)) q))
                         (case t of None \<Rightarrow> targets | Some x \<Rightarrow> targets @ [x])
                         (Suc k))))
      else Inr (bcs, h, targets))"
  by pat_completeness auto
termination
  by (relation "measure (\<lambda>(D, b, cc, bcs, h, prv, offset, targets, k). length cc - offset)")
    (auto simp: len_def)

text \<open>
  \<^verbatim>\<open>parse_bytecode\<close> prints one line for every recorded target that is not a key of
  \<^verbatim>\<open>self.bytecodes\<close>; \<open>nonlinear\<close> is the list of the addresses printed.
\<close>

definition nonlinear :: "(int \<rightharpoonup> ref) \<Rightarrow> int list \<Rightarrow> int list" where
  "nonlinear bcs targets = filter (\<lambda>x. bcs x = None) targets"

definition empty_heap :: heap where
  "empty_heap = (\<lambda>_. \<lparr>opcode = 0, addr = 0, oparg = None, prev = None, nxt = None,
                      xrefs = [], target = None, bc_lnotab = None\<rparr>)"

definition parse_bytecode :: "dis \<Rightarrow> BytecodeGraph \<Rightarrow> (BytecodeGraph \<times> int list) result" where
  "parse_bytecode D g =
     (case parse_loop D (base g) (co_code (code g)) Map.empty (heap g) None 0 [] 0 of
        Inl e \<Rightarrow> Some (Inl e)
      | Inr (bcs, h, targets) \<Rightarrow>
          (case bcs (base g) of
             None \<Rightarrow> Some (Inl KeyError)
           | Some first \<Rightarrow>
               map_result (\<lambda>g'. (g', nonlinear bcs targets))
                 (apply_labels D (g\<lparr>bytecodes := bcs, heap := h, head := Some first\<rparr>) None)))"

subsubsection \<open>\<^verbatim>\<open>apply_lineno\<close>\<close>

text \<open>\<^verbatim>\<open>s[0::2]\<close>; \<^verbatim>\<open>s[1::2]\<close> is \<open>slice2 (drop 1 s)\<close>.\<close>

fun slice2 :: "'a list \<Rightarrow> 'a list" where
  "slice2 [] = []"
| "slice2 [x] = [x]"
| "slice2 (x # y # xs) = x # slice2 xs"

fun linenos_of :: "int \<Rightarrow> int \<Rightarrow> (int \<times> int) list \<Rightarrow> (int \<times> int) list" where
  "linenos_of a l [] = []"
| "linenos_of a l ((byte_incr, line_incr) # rest) =
     (a + byte_incr, l + line_incr) # linenos_of (a + byte_incr) (l + line_incr) rest"

fun lineno_loop :: "heap \<Rightarrow> int \<Rightarrow> int \<Rightarrow> int \<Rightarrow> (int \<times> int) list \<Rightarrow> ref list \<Rightarrow> heap" where
  "lineno_loop h current_addr current_lineno next_lineno linenos [] = h"
| "lineno_loop h current_addr current_lineno next_lineno linenos (x # xs) =
     (if addr (h x) \<ge> current_addr then
        (case linenos of
           [] \<Rightarrow>
             lineno_loop (h(x := (h x)\<lparr>bc_lnotab := Some next_lineno\<rparr>))
               current_addr next_lineno next_lineno [] xs
         | (a, l) # rest \<Rightarrow>
             lineno_loop (h(x := (h x)\<lparr>bc_lnotab := Some next_lineno\<rparr>))
               a next_lineno l rest xs)
      else
        lineno_loop (h(x := (h x)\<lparr>bc_lnotab := Some current_lineno\<rparr>))
          current_addr current_lineno next_lineno linenos xs)"

definition apply_lineno :: "BytecodeGraph \<Rightarrow> BytecodeGraph result" where
  "apply_lineno g =
     (let byte_increments = map uint (slice2 (co_lnotab (code g)));
          line_increments = map uint (slice2 (drop 1 (co_lnotab (code g))))
      in case linenos_of (base g) (co_firstlineno (code g))
                (zip byte_increments line_increments) of
           [] \<Rightarrow> Some (Inr g)
         | [_] \<Rightarrow> Some (Inl IndexError)
         | (a1, l1) # (a2, l2) # rest \<Rightarrow>
             (case nodes g None of
                None \<Rightarrow> None
              | Some ns \<Rightarrow> Some (Inr (g\<lparr>heap := lineno_loop (heap g) a2 l1 l2 rest ns\<rparr>))))"

text \<open>\<^verbatim>\<open>BytecodeGraph.__init__\<close>, with the addresses that \<^verbatim>\<open>parse_bytecode\<close> printed.\<close>

definition BytecodeGraph_init :: "dis \<Rightarrow> code \<Rightarrow> int \<Rightarrow> (BytecodeGraph \<times> int list) result" where
  "BytecodeGraph_init D c b =
     bind_result
       (parse_bytecode D \<lparr>base = b, code = c, head = None, bytecodes = Map.empty,
                           heap = empty_heap\<rparr>)
       (\<lambda>(g, printed). map_result (\<lambda>g'. (g', printed)) (apply_lineno g))"

subsubsection \<open>\<^verbatim>\<open>patch_opargs\<close> and \<^verbatim>\<open>refactor\<close>\<close>

text \<open>\<^verbatim>\<open>current.target.addr\<close> raises \<^verbatim>\<open>AttributeError\<close> when the target is \<^verbatim>\<open>None\<close>.\<close>

definition patch_oparg :: "dis \<Rightarrow> heap \<Rightarrow> ref \<Rightarrow> error + heap" where
  "patch_oparg D h c =
     (if opcode (h c) < HAVE_ARGUMENT D then Inr h
      else if opcode (h c) \<in> set (hasjrel D) then
        (case target (h c) of
           None \<Rightarrow> Inl AttributeError
         | Some t \<Rightarrow>
             Inr (h(c := (h c)\<lparr>oparg := Some (addr (h t) - (addr (h c) + int (len D (h c))))\<rparr>)))
      else if opcode (h c) \<in> set (hasjabs D) then
        (case target (h c) of
           None \<Rightarrow> Inl AttributeError
         | Some t \<Rightarrow> Inr (h(c := (h c)\<lparr>oparg := Some (addr (h t))\<rparr>)))
      else Inr h)"

partial_function (option) patch_from :: "dis \<Rightarrow> heap \<Rightarrow> ref option \<Rightarrow> (error + heap) option" where
  "patch_from D h current =
     (case current of
        None \<Rightarrow> Some (Inr h)
      | Some c \<Rightarrow>
          (case patch_oparg D h c of
             Inl e \<Rightarrow> Some (Inl e)
           | Inr h' \<Rightarrow> patch_from D h' (nxt (h' c))))"

declare patch_from.simps [code]

definition patch_opargs :: "dis \<Rightarrow> BytecodeGraph \<Rightarrow> ref option \<Rightarrow> BytecodeGraph result" where
  "patch_opargs D g start =
     map_result (\<lambda>h. g\<lparr>heap := h\<rparr>)
       (patch_from D (heap g) (case start of None \<Rightarrow> head g | Some s \<Rightarrow> Some s))"

text \<open>The first loop of \<^verbatim>\<open>refactor\<close>: the new addresses and \<^verbatim>\<open>new_bytecodes\<close>.\<close>

fun refactor_loop ::
  "dis \<Rightarrow> heap \<Rightarrow> (int \<rightharpoonup> ref) \<Rightarrow> int \<Rightarrow> ref list \<Rightarrow> heap \<times> (int \<rightharpoonup> ref)" where
  "refactor_loop D h new_bytecodes offset [] = (h, new_bytecodes)"
| "refactor_loop D h new_bytecodes offset (c # cs) =
     refactor_loop D (h(c := (h c)\<lparr>addr := offset\<rparr>)) (new_bytecodes(offset \<mapsto> c))
       (offset + int (len D (h c))) cs"

definition refactor :: "dis \<Rightarrow> BytecodeGraph \<Rightarrow> BytecodeGraph result" where
  "refactor D g =
     (case nodes g None of
        None \<Rightarrow> None
      | Some ns \<Rightarrow>
          (case refactor_loop D (heap g) Map.empty (base g) ns of
             (h, new_bytecodes) \<Rightarrow>
               bind_result (patch_opargs D (g\<lparr>heap := h, bytecodes := new_bytecodes\<rparr>) None)
                 (\<lambda>g'. apply_labels D g' None)))"

subsubsection \<open>\<^verbatim>\<open>calc_lnotab\<close>\<close>

definition pack_BB :: "int \<Rightarrow> int \<Rightarrow> error + byte list" where
  "pack_BB x y =
     (case pack_B x of
        Inl e \<Rightarrow> Inl e
      | Inr a \<Rightarrow> (case pack_B y of Inl e \<Rightarrow> Inl e | Inr b \<Rightarrow> Inr (a @ b)))"

text \<open>
  The loop of \<^verbatim>\<open>calc_lnotab\<close>. Subtracting from \<^verbatim>\<open>None\<close> raises \<^verbatim>\<open>TypeError\<close>. The
  clamped \<^verbatim>\<open>new_offset\<close> is computed and not used: the byte packed is the line delta
  \<^verbatim>\<open>& 0xff\<close>.
\<close>

partial_function (option) lnotab_from ::
  "heap \<Rightarrow> byte list \<Rightarrow> int \<Rightarrow> int \<Rightarrow> ref option \<Rightarrow> (error + byte list) option" where
  "lnotab_from h rvalue prev_lineno prev_offset current =
     (case current of
        None \<Rightarrow> Some (Inr rvalue)
      | Some c \<Rightarrow>
          if bc_lnotab (h c) = Some prev_lineno
          then lnotab_from h rvalue prev_lineno prev_offset (nxt (h c))
          else
            (case bc_lnotab (h c) of
               None \<Rightarrow> Some (Inl TypeError)
             | Some l \<Rightarrow>
                 (case (let new_offset = (if l - prev_lineno > 255 then 255 else l - prev_lineno)
                        in pack_BB (addr (h c) - prev_offset) ((l - prev_lineno) AND 255)) of
                    Inl e \<Rightarrow> Some (Inl e)
                  | Inr bs \<Rightarrow> lnotab_from h (rvalue @ bs) l (addr (h c)) (nxt (h c)))))"

declare lnotab_from.simps [code]

definition calc_lnotab :: "BytecodeGraph \<Rightarrow> byte list result" where
  "calc_lnotab g =
     (case head g of
        None \<Rightarrow> Some (Inl AttributeError)
      | Some first \<Rightarrow>
          lnotab_from (heap g) [] (co_firstlineno (code g)) (addr (heap g first)) (head g))"

subsubsection \<open>\<^verbatim>\<open>delete_node\<close>\<close>

text \<open>The loop over \<^verbatim>\<open>node.xrefs\<close>.\<close>

fun redirect_xrefs :: "heap \<Rightarrow> ref \<Rightarrow> ref list \<Rightarrow> heap" where
  "redirect_xrefs h node [] = h"
| "redirect_xrefs h node (x # xs) =
     (let h1 = h(x := (h x)\<lparr>target := nxt (h node)\<rparr>)
      in redirect_xrefs
           (case nxt (h1 node) of
              None \<Rightarrow> h1
            | Some m \<Rightarrow> h1(m := (h1 m)\<lparr>xrefs := xrefs (h1 m) @ [x]\<rparr>))
           node xs)"

text \<open>
  \<^verbatim>\<open>delete_node\<close>. A node that is its own successor has the list it iterates extended
  by every step of the loop, which then never ends. \<^verbatim>\<open>del self.bytecodes[node.addr]\<close>
  raises \<^verbatim>\<open>KeyError\<close> for an address that is not a key.
\<close>

definition unlink_prev :: "heap \<Rightarrow> ref \<Rightarrow> heap" where
  "unlink_prev h node =
     (case prev (h node) of None \<Rightarrow> h | Some p \<Rightarrow> h(p := (h p)\<lparr>nxt := nxt (h node)\<rparr>))"

definition unlink_next :: "heap \<Rightarrow> ref \<Rightarrow> heap" where
  "unlink_next h node =
     (case nxt (h node) of None \<Rightarrow> h | Some m \<Rightarrow> h(m := (h m)\<lparr>prev := prev (h node)\<rparr>))"

definition delete_node :: "BytecodeGraph \<Rightarrow> ref \<Rightarrow> BytecodeGraph result" where
  "delete_node g node =
     (if nxt (heap g node) = Some node \<and> xrefs (heap g node) \<noteq> [] then None
      else
        let h = unlink_next (unlink_prev
                  (redirect_xrefs (heap g) node (xrefs (heap g node))) node) node
        in (case bytecodes g (addr (h node)) of
              None \<Rightarrow> Some (Inl KeyError)
            | Some _ \<Rightarrow>
                Some (Inr (g\<lparr>heap := h,
                              head := (if head g = Some node then nxt (h node) else head g),
                              bytecodes := (bytecodes g)(addr (h node) := None)\<rparr>))))"

subsubsection \<open>\<^verbatim>\<open>get_code\<close>\<close>

partial_function (option) bin_from ::
  "dis \<Rightarrow> heap \<Rightarrow> ref option \<Rightarrow> byte list \<Rightarrow> (error + byte list) option" where
  "bin_from D h current new_co_code =
     (case current of
        None \<Rightarrow> Some (Inr new_co_code)
      | Some x \<Rightarrow>
          (case bin D (h x) of
             Inl e \<Rightarrow> Some (Inl e)
           | Inr bs \<Rightarrow> bin_from D h (nxt (h x)) (new_co_code @ bs)))"

declare bin_from.simps [code]

text \<open>\<^verbatim>\<open>get_code\<close> returns the new code object; the graph it leaves is returned with it.\<close>

definition get_code :: "dis \<Rightarrow> BytecodeGraph \<Rightarrow> ref option \<Rightarrow> (BytecodeGraph \<times> code) result" where
  "get_code D g start =
     bind_result (refactor D g) (\<lambda>g1.
       bind_result (calc_lnotab g1) (\<lambda>new_co_lineno.
         map_result
           (\<lambda>new_co_code. (g1, (code g1)\<lparr>co_code := new_co_code, co_lnotab := new_co_lineno\<rparr>))
           (bin_from D (heap g1) (case start of None \<Rightarrow> head g1 | Some s \<Rightarrow> Some s) [])))"

subsection \<open>Decoding followed by encoding\<close>

text \<open>Construct the graph of a code object and call \<^verbatim>\<open>get_code\<close> at once.\<close>

definition roundtrip :: "dis \<Rightarrow> code \<Rightarrow> int \<Rightarrow> code result" where
  "roundtrip D c b =
     bind_result (BytecodeGraph_init D c b) (\<lambda>(g, printed). map_result snd (get_code D g None))"

section \<open>Definitions for the statements and their proofs\<close>

text \<open>
  \<open>linked h c ns\<close>: following \<^verbatim>\<open>next\<close> from \<open>c\<close> visits exactly the nodes \<open>ns\<close> and
  ends at \<^verbatim>\<open>None\<close>.
\<close>

primrec linked :: "heap \<Rightarrow> ref option \<Rightarrow> ref list \<Rightarrow> bool" where
  "linked h c [] \<longleftrightarrow> c = None"
| "linked h c (r # rs) \<longleftrightarrow> c = Some r \<and> linked h (nxt (h r)) rs"

text \<open>
  \<open>consecutive D h offset ns\<close>: the first node of \<open>ns\<close> is at \<open>offset\<close> and each further
  node at the address of the node before plus its length.
\<close>

fun consecutive :: "dis \<Rightarrow> heap \<Rightarrow> int \<Rightarrow> ref list \<Rightarrow> bool" where
  "consecutive D h offset [] = True"
| "consecutive D h offset (r # rs) =
     (addr (h r) = offset \<and> consecutive D h (offset + int (len D (h r))) rs)"

text \<open>A method returns: it ends and does not raise.\<close>

definition returns :: "'a result \<Rightarrow> bool" where
  "returns m = (case m of Some (Inr _) \<Rightarrow> True | _ \<Rightarrow> False)"

text \<open>
  The loops of \<^verbatim>\<open>patch_opargs\<close>, of \<^verbatim>\<open>calc_lnotab\<close> and of the serialisation in
  \<^verbatim>\<open>get_code\<close>, run over a list of nodes given in advance. On a chain that ends they are
  \<open>patch_from\<close>, \<open>lnotab_from\<close> and \<open>bin_from\<close> (lemmas \<open>patch_from_linked\<close>,
  \<open>lnotab_from_linked\<close>, \<open>bin_from_linked\<close>).
\<close>

fun patch_loop :: "dis \<Rightarrow> heap \<Rightarrow> ref list \<Rightarrow> error + heap" where
  "patch_loop D h [] = Inr h"
| "patch_loop D h (c # cs) =
     (case patch_oparg D h c of Inl e \<Rightarrow> Inl e | Inr h' \<Rightarrow> patch_loop D h' cs)"

fun lnotab_loop :: "heap \<Rightarrow> byte list \<Rightarrow> int \<Rightarrow> int \<Rightarrow> ref list \<Rightarrow> error + byte list" where
  "lnotab_loop h rvalue prev_lineno prev_offset [] = Inr rvalue"
| "lnotab_loop h rvalue prev_lineno prev_offset (c # cs) =
     (if bc_lnotab (h c) = Some prev_lineno then lnotab_loop h rvalue prev_lineno prev_offset cs
      else
        (case bc_lnotab (h c) of
           None \<Rightarrow> Inl TypeError
         | Some l \<Rightarrow>
             (case pack_BB (addr (h c) - prev_offset) ((l - prev_lineno) AND 255) of
                Inl e \<Rightarrow> Inl e
              | Inr bs \<Rightarrow> lnotab_loop h (rvalue @ bs) l (addr (h c)) cs)))"

fun bin_loop :: "dis \<Rightarrow> heap \<Rightarrow> byte list \<Rightarrow> ref list \<Rightarrow> error + byte list" where
  "bin_loop D h new_co_code [] = Inr new_co_code"
| "bin_loop D h new_co_code (x # xs) =
     (case bin D (h x) of Inl e \<Rightarrow> Inl e | Inr bs \<Rightarrow> bin_loop D h (new_co_code @ bs) xs)"

text \<open>
  \<open>has_label D bc l\<close>: \<^verbatim>\<open>apply_labels\<close> computes the label \<open>l\<close> for the node and \<open>l >= 0\<close>.
\<close>

definition has_label :: "dis \<Rightarrow> Bytecode \<Rightarrow> int \<Rightarrow> bool" where
  "has_label D bc l \<longleftrightarrow> label_of D bc = Inr (Some l) \<and> 0 \<le> l"

text \<open>
  The invariant of the second loop of \<^verbatim>\<open>apply_labels\<close>, with \<open>N\<close> the nodes of the list
  and \<open>dn\<close> those the loop has passed.
\<close>

definition xinv :: "ref set \<Rightarrow> ref set \<Rightarrow> heap \<Rightarrow> bool" where
  "xinv N dn h \<longleftrightarrow>
     (\<forall>n\<in>N. \<forall>r. r \<in> set (xrefs (h n)) \<longrightarrow> r \<in> dn \<and> target (h r) = Some n) \<and>
     (\<forall>r\<in>dn. \<forall>t. target (h r) = Some t \<longrightarrow> r \<in> set (xrefs (h t))) \<and>
     (\<forall>r\<in>N - dn. target (h r) = None) \<and>
     (\<forall>n\<in>N. distinct (xrefs (h n)))"

text \<open>
  Example graphs are built by the constructor: \<open>constructed\<close> is the graph it returns (the
  empty graph it starts from when it raises).
\<close>

definition result_or :: "'a \<Rightarrow> 'a result \<Rightarrow> 'a" where
  "result_or d m = (case m of Some (Inr v) \<Rightarrow> v | _ \<Rightarrow> d)"

definition constructed :: "dis \<Rightarrow> code \<Rightarrow> int \<Rightarrow> BytecodeGraph" where
  "constructed D c b =
     fst (result_or (\<lparr>base = b, code = c, head = None, bytecodes = Map.empty, heap = empty_heap\<rparr>, [])
            (BytecodeGraph_init D c b))"

text \<open>The graph of \<^verbatim>\<open>NOP; JUMP_ABSOLUTE 0; NOP\<close>.\<close>

definition graph_jump_back :: BytecodeGraph where
  "graph_jump_back =
     constructed dis27 \<lparr>co_code = [9, 113, 0, 0, 9], co_firstlineno = 1, co_lnotab = []\<rparr> 0"

text \<open>A jump-class node, as \<^verbatim>\<open>patch_opargs\<close> tests it.\<close>

definition is_jump :: "dis \<Rightarrow> Bytecode \<Rightarrow> bool" where
  "is_jump D bc \<longleftrightarrow>
     HAVE_ARGUMENT D \<le> opcode bc \<and> (opcode bc \<in> set (hasjrel D) \<or> opcode bc \<in> set (hasjabs D))"

text \<open>The operand \<^verbatim>\<open>patch_opargs\<close> gives the jump \<open>r\<close> with the target \<open>t\<close>.\<close>

definition aims_at :: "dis \<Rightarrow> heap \<Rightarrow> ref \<Rightarrow> ref \<Rightarrow> bool" where
  "aims_at D h r t \<longleftrightarrow>
     (if opcode (h r) \<in> set (hasjrel D)
      then oparg (h r) = Some (addr (h t) - (addr (h r) + int (len D (h r))))
      else oparg (h r) = Some (addr (h t)))"

text \<open>
  Relocation in the order the specification gives: new addresses and lookup, then
  cross-reference resolution, then the patching of the operands.
\<close>

definition relocate_spec :: "dis \<Rightarrow> BytecodeGraph \<Rightarrow> BytecodeGraph result" where
  "relocate_spec D g =
     (case nodes g None of
        None \<Rightarrow> None
      | Some ns \<Rightarrow>
          (case refactor_loop D (heap g) Map.empty (base g) ns of
             (h, new_bytecodes) \<Rightarrow>
               bind_result (apply_labels D (g\<lparr>heap := h, bytecodes := new_bytecodes\<rparr>) None)
                 (\<lambda>g'. patch_opargs D g' None)))"

text \<open>
  The graph of \<^verbatim>\<open>JUMP_ABSOLUTE 4; NOP; NOP; RETURN_VALUE\<close>, and the same graph after
  \<^verbatim>\<open>delete_node\<close> of the first \<^verbatim>\<open>NOP\<close> (the node 1).
\<close>

definition graph_jump_over :: BytecodeGraph where
  "graph_jump_over =
     constructed dis27
       \<lparr>co_code = [113, 4, 0, 9, 9, 83], co_firstlineno = 1, co_lnotab = [0, 1, 3, 1]\<rparr> 0"

definition graph_deleted :: BytecodeGraph where
  "graph_deleted = result_or graph_jump_over (delete_node graph_jump_over 1)"

text \<open>
  The graph of \<^verbatim>\<open>JUMP_ABSOLUTE 3; NOP\<close> after \<^verbatim>\<open>delete_node\<close> of the \<^verbatim>\<open>NOP\<close>, the last
  node and the target of the jump.
\<close>

definition graph_dangling :: BytecodeGraph where
  "graph_dangling =
     result_or (constructed dis27 \<lparr>co_code = [113, 3, 0, 9], co_firstlineno = 1, co_lnotab = []\<rparr> 0)
       (delete_node
          (constructed dis27 \<lparr>co_code = [113, 3, 0, 9], co_firstlineno = 1, co_lnotab = []\<rparr> 0) 1)"

text \<open>
  \<open>back_linked h p ns\<close>: the \<^verbatim>\<open>prev\<close> of the first node of \<open>ns\<close> is \<open>p\<close> and the
  \<^verbatim>\<open>prev\<close> of each further node is the node before it.
\<close>

fun back_linked :: "heap \<Rightarrow> ref option \<Rightarrow> ref list \<Rightarrow> bool" where
  "back_linked h p [] = True"
| "back_linked h p (r # rs) = (prev (h r) = p \<and> back_linked h (Some r) rs)"

text \<open>The graph of \<^verbatim>\<open>JUMP_ABSOLUTE 0; NOP\<close>: the first node jumps to itself.\<close>

definition graph_self_jump :: BytecodeGraph where
  "graph_self_jump =
     constructed dis27 \<lparr>co_code = [113, 0, 0, 9], co_firstlineno = 1, co_lnotab = []\<rparr> 0"


text \<open>
  The instructions of a node list as (address, line) pairs; \<open>None\<close> when a node has no
  line.
\<close>

fun instructions :: "heap \<Rightarrow> ref list \<Rightarrow> (int \<times> int) list option" where
  "instructions h [] = Some []"
| "instructions h (r # rs) =
     (case bc_lnotab (h r) of
        None \<Rightarrow> None
      | Some l \<Rightarrow> map_option ((#) (addr (h r), l)) (instructions h rs))"

text \<open>
  The line table as the specification words it: one (byte-delta, line-delta) pair for each
  instruction whose line differs from the line of the instruction before it (the first
  line, for the first instruction), the deltas counted from the last pair.
\<close>

fun line_changes :: "int \<Rightarrow> int \<Rightarrow> (int \<times> int) list \<Rightarrow> (int \<times> int) list" where
  "line_changes prev_line prev_addr [] = []"
| "line_changes prev_line prev_addr ((a, l) # rest) =
     (if l = prev_line then line_changes prev_line prev_addr rest
      else (a - prev_addr, l - prev_line) # line_changes l a rest)"

definition clamp_byte :: "int \<Rightarrow> int" where
  "clamp_byte x = max 0 (min 255 x)"

definition encode_clamped :: "(int \<times> int) list \<Rightarrow> byte list" where
  "encode_clamped ds = concat (map (\<lambda>(b, l). [word_of_int (clamp_byte b), word_of_int (clamp_byte l)]) ds)"

definition encode_exact :: "(int \<times> int) list \<Rightarrow> byte list" where
  "encode_exact ds = concat (map (\<lambda>(b, l). [word_of_int b, word_of_int l]) ds)"

definition fits_byte :: "int \<Rightarrow> bool" where
  "fits_byte x \<longleftrightarrow> 0 \<le> x \<and> x \<le> 255"

text \<open>
  A graph of two nodes, \<^verbatim>\<open>NOP\<close> at the address 0 on line 1 and \<^verbatim>\<open>RETURN_VALUE\<close> at the
  address 300 on line 2, as \<^verbatim>\<open>delete_node\<close> leaves the two ends of a line of 300 bytes
  before the addresses are assigned again.
\<close>

definition graph_gap :: BytecodeGraph where
  "graph_gap =
     \<lparr>base = 0,
      code = \<lparr>co_code = [], co_firstlineno = 1, co_lnotab = []\<rparr>,
      head = Some 0,
      bytecodes = [0 \<mapsto> 0, 300 \<mapsto> 1],
      heap = empty_heap
        (0 := \<lparr>opcode = 9, addr = 0, oparg = None, prev = None, nxt = Some 1,
                xrefs = [], target = None, bc_lnotab = Some 1\<rparr>,
         1 := \<lparr>opcode = 83, addr = 300, oparg = None, prev = Some 0, nxt = None,
                xrefs = [], target = None, bc_lnotab = Some 2\<rparr>)\<rparr>"

section \<open>Results, and the list of nodes in the store\<close>

lemma returnsD: "returns m \<Longrightarrow> \<exists>v. m = Some (Inr v)"
  by (auto simp: returns_def split: option.splits sum.splits)

lemma bind_result_Inr:
  "bind_result m f = Some (Inr v) \<longleftrightarrow> (\<exists>u. m = Some (Inr u) \<and> f u = Some (Inr v))"
  by (auto simp: bind_result_def split: option.splits sum.splits)

lemma map_result_Some_Inr:
  "map_result f m = Some (Inr v) \<longleftrightarrow> (\<exists>u. m = Some (Inr u) \<and> v = f u)"
  by (auto simp: map_result_def bind_result_def split: option.splits sum.splits)

lemma nodes_from_None [simp]: "nodes_from h None = Some []"
  by (simp add: nodes_from.simps)

lemma nodes_from_Some:
  "nodes_from h (Some c) = Option.bind (nodes_from h (nxt (h c))) (\<lambda>rest. Some (c # rest))"
  by (subst nodes_from.simps) simp

lemma nodes_from_linked: "nodes_from h c = Some ns \<longleftrightarrow> linked h c ns"
proof (induction ns arbitrary: c)
  case Nil
  show ?case by (cases c) (auto simp: nodes_from_Some split: Option.bind_splits)
next
  case (Cons r rs)
  show ?case
  proof (cases c)
    case None
    then show ?thesis by simp
  next
    case (Some a)
    then show ?thesis using Cons [of "nxt (h a)"]
      by (auto simp: nodes_from_Some split: Option.bind_splits)
  qed
qed

lemma linked_unique: "linked h c ns \<Longrightarrow> linked h c ms \<Longrightarrow> ns = ms"
proof (induction ns arbitrary: c ms)
  case Nil
  then show ?case by (cases ms) auto
next
  case (Cons r rs)
  then show ?case by (cases ms) auto
qed

lemma linked_suffix: "linked h c (as @ r # bs) \<Longrightarrow> linked h (Some r) (r # bs)"
  by (induction as arbitrary: c) auto

lemma linked_distinct: "linked h c ns \<Longrightarrow> distinct ns"
proof (induction ns arbitrary: c)
  case Nil
  then show ?case by simp
next
  case (Cons r rs)
  have "r \<notin> set rs"
  proof
    assume "r \<in> set rs"
    then obtain as bs where rs: "rs = as @ r # bs" by (auto simp: in_set_conv_decomp)
    with Cons.prems have "linked h (Some r) (r # bs)"
      using linked_suffix [of h "nxt (h r)" as r bs] by simp
    moreover from Cons.prems have "linked h (Some r) (r # rs)" by simp
    ultimately have "r # bs = r # rs" by (rule linked_unique)
    with rs show False by simp
  qed
  with Cons show ?case by auto
qed

lemma linked_cong:
  "(\<And>r. r \<in> set ns \<Longrightarrow> nxt (h' r) = nxt (h r)) \<Longrightarrow> linked h' c ns = linked h c ns"
  by (induction ns arbitrary: c) auto

lemma nodes_from_cong:
  assumes "\<And>r. nxt (h' r) = nxt (h r)"
  shows "nodes_from h' c = nodes_from h c"
proof (cases "nodes_from h c")
  case None
  show ?thesis
  proof (cases "nodes_from h' c")
    case None
    with \<open>nodes_from h c = None\<close> show ?thesis by simp
  next
    case (Some ns)
    then have "linked h' c ns" by (simp add: nodes_from_linked)
    then have "linked h c ns" using assms linked_cong [of ns h' h c] by simp
    then show ?thesis using None by (simp add: nodes_from_linked [symmetric])
  qed
next
  case (Some ns)
  then have "linked h c ns" by (simp add: nodes_from_linked)
  then have "linked h' c ns" using assms linked_cong [of ns h' h c] by simp
  then show ?thesis using Some by (simp add: nodes_from_linked [symmetric])
qed

section \<open>The fields each loop leaves unchanged\<close>

lemma clear_labels_frame:
  "opcode (clear_labels h ns r) = opcode (h r) \<and> addr (clear_labels h ns r) = addr (h r)
   \<and> oparg (clear_labels h ns r) = oparg (h r) \<and> prev (clear_labels h ns r) = prev (h r)
   \<and> nxt (clear_labels h ns r) = nxt (h r) \<and> bc_lnotab (clear_labels h ns r) = bc_lnotab (h r)"
  by (induction ns arbitrary: h) auto

lemma clear_labels_in:
  "r \<in> set ns \<Longrightarrow> xrefs (clear_labels h ns r) = [] \<and> target (clear_labels h ns r) = None"
proof (induction ns arbitrary: h)
  case Nil
  then show ?case by simp
next
  case (Cons c cs)
  show ?case
  proof (cases "r \<in> set cs")
    case True
    then show ?thesis using Cons.IH by simp
  next
    case False
    have "\<And>h. r \<notin> set cs \<Longrightarrow> clear_labels h cs r = h r"
      by (induction cs) auto
    with False Cons.prems show ?thesis by simp
  qed
qed

lemma clear_labels_out: "r \<notin> set ns \<Longrightarrow> clear_labels h ns r = h r"
  by (induction ns arbitrary: h) auto

lemma apply_label_frame:
  "apply_label D bcs h c = Inr h' \<Longrightarrow>
   opcode (h' r) = opcode (h r) \<and> addr (h' r) = addr (h r) \<and> oparg (h' r) = oparg (h r)
   \<and> prev (h' r) = prev (h r) \<and> nxt (h' r) = nxt (h r) \<and> bc_lnotab (h' r) = bc_lnotab (h r)"
  by (auto simp: apply_label_def Let_def split: sum.splits option.splits if_splits)

lemma label_loop_frame:
  "label_loop D bcs h ns = Inr h' \<Longrightarrow>
   opcode (h' r) = opcode (h r) \<and> addr (h' r) = addr (h r) \<and> oparg (h' r) = oparg (h r)
   \<and> prev (h' r) = prev (h r) \<and> nxt (h' r) = nxt (h r) \<and> bc_lnotab (h' r) = bc_lnotab (h r)"
proof (induction ns arbitrary: h)
  case Nil
  then show ?case by simp
next
  case (Cons c cs)
  then obtain h1 where h1: "apply_label D bcs h c = Inr h1" and rest: "label_loop D bcs h1 cs = Inr h'"
    by (auto split: sum.splits)
  from Cons.IH [OF rest] apply_label_frame [OF h1, of r] show ?case by simp
qed

lemma patch_oparg_frame:
  "patch_oparg D h c = Inr h' \<Longrightarrow>
   opcode (h' r) = opcode (h r) \<and> addr (h' r) = addr (h r) \<and> target (h' r) = target (h r)
   \<and> xrefs (h' r) = xrefs (h r)
   \<and> prev (h' r) = prev (h r) \<and> nxt (h' r) = nxt (h r) \<and> bc_lnotab (h' r) = bc_lnotab (h r)"
  by (auto simp: patch_oparg_def split: option.splits if_splits)

section \<open>The lazy loops on a chain that ends\<close>

lemma patch_oparg_linked:
  assumes "patch_oparg D h c = Inr h'"
  shows "linked h' s ns = linked h s ns"
proof (rule linked_cong)
  fix r show "nxt (h' r) = nxt (h r)" using patch_oparg_frame [OF assms, of r] by simp
qed

lemma patch_from_linked: "linked h c ns \<Longrightarrow> patch_from D h c = Some (patch_loop D h ns)"
proof (induction ns arbitrary: h c)
  case Nil
  then show ?case by (simp add: patch_from.simps)
next
  case (Cons r rs)
  then have c: "c = Some r" and l: "linked h (nxt (h r)) rs" by simp_all
  show ?case
  proof (cases "patch_oparg D h r")
    case (Inl e)
    with c show ?thesis by (subst patch_from.simps) simp
  next
    case (Inr h1)
    from patch_oparg_frame [OF Inr, of r] have n: "nxt (h1 r) = nxt (h r)" by simp
    from l n have "linked h1 (nxt (h1 r)) rs" by (simp add: patch_oparg_linked [OF Inr])
    from Cons.IH [OF this] Inr c show ?thesis by (subst patch_from.simps) simp
  qed
qed

lemma patch_from_returns:
  assumes "patch_from D h c = Some y"
  shows "\<forall>h'. y = Inr h' \<longrightarrow> (\<exists>ns. linked h c ns \<and> patch_loop D h ns = Inr h')"
proof (rule patch_from.raw_induct
    [where P = "\<lambda>D h c y. \<forall>h'. y = Inr h' \<longrightarrow> (\<exists>ns. linked h c ns \<and> patch_loop D h ns = Inr h')",
     OF _ assms])
  fix f D h c y
  assume IH: "\<And>D h c y. f D h c = Some y \<Longrightarrow>
      \<forall>h'. y = Inr h' \<longrightarrow> (\<exists>ns. linked h c ns \<and> patch_loop D h ns = Inr h')"
    and eq: "(case c of
        None \<Rightarrow> Some (Inr h)
      | Some r \<Rightarrow>
          (case patch_oparg D h r of
             Inl e \<Rightarrow> Some (Inl e)
           | Inr h' \<Rightarrow> f D h' (nxt (h' r)))) = Some y"
  show "\<forall>h'. y = Inr h' \<longrightarrow> (\<exists>ns. linked h c ns \<and> patch_loop D h ns = Inr h')"
  proof (intro allI impI)
    fix h' assume y: "y = Inr h'"
    show "\<exists>ns. linked h c ns \<and> patch_loop D h ns = Inr h'"
    proof (cases c)
      case None
      with eq y have "linked h c [] \<and> patch_loop D h [] = Inr h'" by simp
      then show ?thesis ..
    next
      case (Some r)
      with eq y obtain h1 where h1: "patch_oparg D h r = Inr h1"
        and rest: "f D h1 (nxt (h1 r)) = Some (Inr h')"
        by (auto split: sum.splits)
      from IH [OF rest] obtain ns where ns: "linked h1 (nxt (h1 r)) ns"
        and p: "patch_loop D h1 ns = Inr h'"
        by blast
      from patch_oparg_frame [OF h1, of r] have n: "nxt (h1 r) = nxt (h r)" by simp
      from ns n have "linked h (nxt (h r)) ns" by (simp add: patch_oparg_linked [OF h1])
      with Some h1 p have "linked h c (r # ns) \<and> patch_loop D h (r # ns) = Inr h'" by simp
      then show ?thesis ..
    qed
  qed
qed

lemma lnotab_from_linked:
  "linked h c ns \<Longrightarrow> lnotab_from h acc pl po c = Some (lnotab_loop h acc pl po ns)"
proof (induction ns arbitrary: c acc pl po)
  case Nil
  then show ?case by (simp add: lnotab_from.simps)
next
  case (Cons r rs)
  then have c: "c = Some r" and l: "linked h (nxt (h r)) rs" by simp_all
  note IH = Cons.IH [OF l]
  show ?case unfolding c
    by (subst lnotab_from.simps) (simp add: IH Let_def split: option.splits sum.splits)
qed

lemma bin_from_linked: "linked h c ns \<Longrightarrow> bin_from D h c acc = Some (bin_loop D h acc ns)"
proof (induction ns arbitrary: c acc)
  case Nil
  then show ?case by (simp add: bin_from.simps)
next
  case (Cons r rs)
  then have c: "c = Some r" and l: "linked h (nxt (h r)) rs" by simp_all
  note IH = Cons.IH [OF l]
  show ?case unfolding c
    by (subst bin_from.simps) (simp add: IH split: sum.splits)
qed

lemma bin_from_returns:
  assumes "bin_from D h c acc = Some y"
  shows "\<forall>bs. y = Inr bs \<longrightarrow> (\<exists>ns. linked h c ns \<and> bin_loop D h acc ns = Inr bs)"
proof (rule bin_from.raw_induct
    [where P = "\<lambda>D h c acc y. \<forall>bs. y = Inr bs \<longrightarrow> (\<exists>ns. linked h c ns \<and> bin_loop D h acc ns = Inr bs)",
     OF _ assms])
  fix f D h c acc y
  assume IH: "\<And>D h c acc y. f D h c acc = Some y \<Longrightarrow>
      \<forall>bs. y = Inr bs \<longrightarrow> (\<exists>ns. linked h c ns \<and> bin_loop D h acc ns = Inr bs)"
    and eq: "(case c of
        None \<Rightarrow> Some (Inr acc)
      | Some x \<Rightarrow>
          (case bin D (h x) of
             Inl e \<Rightarrow> Some (Inl e)
           | Inr bs \<Rightarrow> f D h (nxt (h x)) (acc @ bs))) = Some y"
  show "\<forall>bs. y = Inr bs \<longrightarrow> (\<exists>ns. linked h c ns \<and> bin_loop D h acc ns = Inr bs)"
  proof (intro allI impI)
    fix bs assume y: "y = Inr bs"
    show "\<exists>ns. linked h c ns \<and> bin_loop D h acc ns = Inr bs"
    proof (cases c)
      case None
      with eq y have "linked h c [] \<and> bin_loop D h acc [] = Inr bs" by simp
      then show ?thesis ..
    next
      case (Some r)
      with eq y obtain b where b: "bin D (h r) = Inr b"
        and rest: "f D h (nxt (h r)) (acc @ b) = Some (Inr bs)"
        by (auto split: sum.splits)
      from IH [OF rest] obtain ns where ns: "linked h (nxt (h r)) ns"
        and p: "bin_loop D h (acc @ b) ns = Inr bs"
        by blast
      with Some b have "linked h c (r # ns) \<and> bin_loop D h acc (r # ns) = Inr bs" by simp
      then show ?thesis ..
    qed
  qed
qed

lemma patch_opargs_nodes:
  assumes "nodes g start = Some ns"
  shows "patch_opargs D g start
    = map_result (\<lambda>h. g\<lparr>heap := h\<rparr>) (Some (patch_loop D (heap g) ns))"
proof -
  from assms have "linked (heap g) (case start of None \<Rightarrow> head g | Some s \<Rightarrow> Some s) ns"
    by (simp add: nodes_def nodes_from_linked)
  from patch_from_linked [OF this] show ?thesis by (simp add: patch_opargs_def)
qed

lemma calc_lnotab_nodes:
  assumes "head g = Some first" and "nodes g None = Some ns"
  shows "calc_lnotab g
    = Some (lnotab_loop (heap g) [] (co_firstlineno (code g)) (addr (heap g first)) ns)"
proof -
  from assms(2) have "linked (heap g) (head g) ns" by (simp add: nodes_def nodes_from_linked)
  from lnotab_from_linked [OF this] assms(1) show ?thesis by (simp add: calc_lnotab_def)
qed

section \<open>The fields the loops of \<^verbatim>\<open>refactor\<close> leave unchanged\<close>

lemma patch_loop_frame:
  "patch_loop D h ns = Inr h' \<Longrightarrow>
   opcode (h' r) = opcode (h r) \<and> addr (h' r) = addr (h r) \<and> target (h' r) = target (h r)
   \<and> xrefs (h' r) = xrefs (h r)
   \<and> prev (h' r) = prev (h r) \<and> nxt (h' r) = nxt (h r) \<and> bc_lnotab (h' r) = bc_lnotab (h r)"
proof (induction ns arbitrary: h)
  case Nil
  then show ?case by simp
next
  case (Cons c cs)
  then obtain h1 where h1: "patch_oparg D h c = Inr h1" and rest: "patch_loop D h1 cs = Inr h'"
    by (auto split: sum.splits)
  from Cons.IH [OF rest] patch_oparg_frame [OF h1, of r] show ?case by simp
qed

lemma refactor_loop_frame:
  "refactor_loop D h nb off ns = (h', nb') \<Longrightarrow>
   opcode (h' r) = opcode (h r) \<and> oparg (h' r) = oparg (h r) \<and> target (h' r) = target (h r)
   \<and> xrefs (h' r) = xrefs (h r)
   \<and> prev (h' r) = prev (h r) \<and> nxt (h' r) = nxt (h r) \<and> bc_lnotab (h' r) = bc_lnotab (h r)"
proof (induction ns arbitrary: h nb off)
  case Nil
  then show ?case by simp
next
  case (Cons c cs)
  from Cons.prems
  have rest: "refactor_loop D (h(c := (h c)\<lparr>addr := off\<rparr>)) (nb(off \<mapsto> c))
                (off + int (len D (h c))) cs = (h', nb')"
    by simp
  from Cons.IH [OF rest] show ?case by auto
qed

lemma len_frame: "opcode b' = opcode b \<Longrightarrow> len D b' = len D b"
  by (simp add: len_def)

section \<open>The addresses and the lookup of \<^verbatim>\<open>refactor\<close>\<close>

lemma refactor_loop_out:
  "refactor_loop D h nb off ns = (h', nb') \<Longrightarrow> r \<notin> set ns \<Longrightarrow> h' r = h r"
  by (induction ns arbitrary: h nb off) auto

lemma refactor_loop_consecutive:
  "refactor_loop D h nb off ns = (h', nb') \<Longrightarrow> distinct ns \<Longrightarrow> consecutive D h' off ns"
proof (induction ns arbitrary: h nb off)
  case Nil
  then show ?case by simp
next
  case (Cons c cs)
  let ?h1 = "h(c := (h c)\<lparr>addr := off\<rparr>)"
  from Cons.prems have rest: "refactor_loop D ?h1 (nb(off \<mapsto> c)) (off + int (len D (h c))) cs = (h', nb')"
    and c: "c \<notin> set cs" and d: "distinct cs" by auto
  from refactor_loop_out [OF rest c] have hc: "h' c = ?h1 c" .
  then have "addr (h' c) = off" and "len D (h' c) = len D (h c)" by (simp_all add: len_def)
  with Cons.IH [OF rest d] show ?case by simp
qed

lemma consecutive_cong:
  "(\<And>r. r \<in> set ns \<Longrightarrow> addr (h' r) = addr (h r) \<and> opcode (h' r) = opcode (h r)) \<Longrightarrow>
   consecutive D h' off ns = consecutive D h off ns"
  by (induction ns arbitrary: off) (auto simp: len_def)

lemma consecutive_lower: "consecutive D h off ns \<Longrightarrow> r \<in> set ns \<Longrightarrow> off \<le> addr (h r)"
proof (induction ns arbitrary: off)
  case Nil
  then show ?case by simp
next
  case (Cons c cs)
  show ?case
  proof (cases "r = c")
    case True
    with Cons.prems show ?thesis by simp
  next
    case False
    with Cons.prems have "off + int (len D (h c)) \<le> addr (h r)"
      using Cons.IH [of "off + int (len D (h c))"] by simp
    then show ?thesis by simp
  qed
qed

lemma consecutive_increasing:
  "consecutive D h off ns \<Longrightarrow> sorted_wrt (<) (map (\<lambda>r. addr (h r)) ns)"
proof (induction ns arbitrary: off)
  case Nil
  then show ?case by simp
next
  case (Cons c cs)
  then have rest: "consecutive D h (off + int (len D (h c))) cs" and c: "addr (h c) = off" by auto
  have "\<forall>r\<in>set cs. addr (h c) < addr (h r)"
  proof
    fix r assume "r \<in> set cs"
    from consecutive_lower [OF rest this] c have "off + int (len D (h c)) \<le> addr (h r)" by simp
    moreover have "0 < len D (h c)" by (simp add: len_def)
    ultimately show "addr (h c) < addr (h r)" using c by simp
  qed
  with Cons.IH [OF rest] show ?case by simp
qed

lemma refactor_loop_lookup:
  "refactor_loop D h nb off ns = (h', nb') \<Longrightarrow> distinct ns \<Longrightarrow>
   (\<forall>k. k < off \<longrightarrow> nb' k = nb k) \<and>
   (\<forall>k r. off \<le> k \<longrightarrow> (nb' k = Some r) = ((r \<in> set ns \<and> addr (h' r) = k) \<or> (nb k = Some r \<and> (\<forall>q\<in>set ns. addr (h' q) \<noteq> k))))"
proof (induction ns arbitrary: h nb off)
  case Nil
  then show ?case by simp
next
  case (Cons c cs)
  let ?h1 = "h(c := (h c)\<lparr>addr := off\<rparr>)"
  let ?off1 = "off + int (len D (h c))"
  from Cons.prems have rest: "refactor_loop D ?h1 (nb(off \<mapsto> c)) ?off1 cs = (h', nb')"
    and c: "c \<notin> set cs" and d: "distinct cs" by auto
  note IH = Cons.IH [OF rest d]
  from refactor_loop_out [OF rest c] have hc: "addr (h' c) = off" by simp
  have lt: "off < ?off1" by (simp add: len_def)
  from refactor_loop_consecutive [OF rest d]
  have low: "\<And>q. q \<in> set cs \<Longrightarrow> ?off1 \<le> addr (h' q)" by (rule consecutive_lower)
  show ?case
  proof (intro conjI allI impI)
    fix k assume "k < off"
    with IH lt show "nb' k = nb k" by simp
  next
    fix k r assume k: "off \<le> k"
    show "(nb' k = Some r) = ((r \<in> set (c # cs) \<and> addr (h' r) = k) \<or> (nb k = Some r \<and> (\<forall>q\<in>set (c # cs). addr (h' q) \<noteq> k)))"
    proof (cases "k < ?off1")
      case True
      with IH have eq: "nb' k = (nb(off \<mapsto> c)) k" by simp
      show ?thesis
      proof (cases "k = off")
        case True
        with eq hc low lt show ?thesis by fastforce
      next
        case False
        with eq hc low True show ?thesis by fastforce
      qed
    next
      case False
      then have "?off1 \<le> k" by simp
      with IH have "(nb' k = Some r) = ((r \<in> set cs \<and> addr (h' r) = k) \<or> ((nb(off \<mapsto> c)) k = Some r \<and> (\<forall>q\<in>set cs. addr (h' q) \<noteq> k)))"
        by blast
      with False hc lt show ?thesis by auto
    qed
  qed
qed

section \<open>Cross-reference resolution\<close>

lemma has_label_frame:
  "opcode b' = opcode b \<Longrightarrow> addr b' = addr b \<Longrightarrow> oparg b' = oparg b \<Longrightarrow>
   has_label D b' l = has_label D b l"
  by (simp add: has_label_def label_of_def len_def split: option.splits)

lemma has_label_unique: "has_label D b l \<Longrightarrow> has_label D b l' \<Longrightarrow> l = l'"
  by (simp add: has_label_def)

lemma apply_label_no_label:
  assumes "apply_label D bcs h c = Inr h'" and "\<forall>l. \<not> has_label D (h c) l"
  shows "h' = h"
proof (cases "label_of D (h c)")
  case (Inl e)
  with assms show ?thesis by (simp add: apply_label_def)
next
  case (Inr lab)
  show ?thesis
  proof (cases lab)
    case None
    with Inr assms show ?thesis by (simp add: apply_label_def)
  next
    case (Some l)
    with Inr assms(2) have "\<not> 0 \<le> l" by (simp add: has_label_def)
    with Inr Some assms(1) show ?thesis by (simp add: apply_label_def)
  qed
qed

lemma apply_label_has_label:
  assumes "apply_label D bcs h c = Inr h'" and "has_label D (h c) l"
  shows "\<exists>t. bcs l = Some t \<and> target (h' c) = Some t
            \<and> (\<forall>r. r \<noteq> c \<longrightarrow> target (h' r) = target (h r))
            \<and> set (xrefs (h' t)) = insert c (set (xrefs (h t)))
            \<and> (distinct (xrefs (h t)) \<longrightarrow> distinct (xrefs (h' t)))
            \<and> (\<forall>n. n \<noteq> t \<longrightarrow> xrefs (h' n) = xrefs (h n))"
proof -
  from assms(2) have l: "label_of D (h c) = Inr (Some l)" "0 \<le> l"
    by (auto simp: has_label_def)
  with assms(1) obtain t where t: "bcs l = Some t"
    by (cases "bcs l") (simp_all add: apply_label_def)
  let ?h1 = "if c \<in> set (xrefs (h t)) then h else h(t := (h t)\<lparr>xrefs := xrefs (h t) @ [c]\<rparr>)"
  from assms(1) l t have h': "h' = ?h1(c := (?h1 c)\<lparr>target := Some t\<rparr>)"
    by (simp add: apply_label_def Let_def)
  have 1: "target (h' c) = Some t" by (simp add: h')
  have 2: "\<forall>r. r \<noteq> c \<longrightarrow> target (h' r) = target (h r)" by (simp add: h')
  have 3: "set (xrefs (h' t)) = insert c (set (xrefs (h t)))" by (auto simp: h')
  have 4: "distinct (xrefs (h t)) \<longrightarrow> distinct (xrefs (h' t))" by (simp add: h')
  have 5: "\<forall>n. n \<noteq> t \<longrightarrow> xrefs (h' n) = xrefs (h n)" by (simp add: h')
  from t 1 2 3 4 5 show ?thesis by blast
qed

lemma xinv_skip:
  assumes inv: "xinv N dn h" and c: "c \<in> N" "c \<notin> dn"
  shows "xinv N (insert c dn) h"
proof -
  from inv c have "target (h c) = None" by (simp add: xinv_def)
  with inv show ?thesis unfolding xinv_def by auto
qed

lemma xinv_step:
  assumes step: "apply_label D bcs h c = Inr h'" and inv: "xinv N dn h"
    and c: "c \<in> N" "c \<notin> dn"
  shows "xinv N (insert c dn) h'"
proof (cases "\<exists>l. has_label D (h c) l")
  case False
  with step have "h' = h" by (simp add: apply_label_no_label)
  with inv c show ?thesis by (simp add: xinv_skip)
next
  case True
  then obtain l where l: "has_label D (h c) l" ..
  from inv have P1: "\<And>n r. n \<in> N \<Longrightarrow> r \<in> set (xrefs (h n)) \<Longrightarrow> r \<in> dn \<and> target (h r) = Some n"
    and P2: "\<And>r t. r \<in> dn \<Longrightarrow> target (h r) = Some t \<Longrightarrow> r \<in> set (xrefs (h t))"
    and P3: "\<And>r. r \<in> N \<Longrightarrow> r \<notin> dn \<Longrightarrow> target (h r) = None"
    and P4: "\<And>n. n \<in> N \<Longrightarrow> distinct (xrefs (h n))"
    by (simp_all add: xinv_def)
  from apply_label_has_label [OF step l] obtain t where
        tc: "target (h' c) = Some t"
    and tr: "\<And>r. r \<noteq> c \<Longrightarrow> target (h' r) = target (h r)"
    and xt: "set (xrefs (h' t)) = insert c (set (xrefs (h t)))"
    and dt: "distinct (xrefs (h t)) \<Longrightarrow> distinct (xrefs (h' t))"
    and xn: "\<And>n. n \<noteq> t \<Longrightarrow> xrefs (h' n) = xrefs (h n)"
    by blast
  have Q1: "\<forall>n\<in>N. \<forall>r. r \<in> set (xrefs (h' n)) \<longrightarrow> r \<in> insert c dn \<and> target (h' r) = Some n"
  proof (intro ballI allI impI)
    fix n r assume n: "n \<in> N" and r: "r \<in> set (xrefs (h' n))"
    show "r \<in> insert c dn \<and> target (h' r) = Some n"
    proof (cases "r = c \<and> n = t")
      case True
      with tc show ?thesis by simp
    next
      case False
      have r': "r \<in> set (xrefs (h n))"
      proof (cases "n = t")
        case True
        with r xt False show ?thesis by auto
      next
        case False
        with r xn show ?thesis by simp
      qed
      from P1 [OF n r'] have rd: "r \<in> dn" and rt: "target (h r) = Some n" by auto
      from rd c have "r \<noteq> c" by auto
      with rd rt tr show ?thesis by simp
    qed
  qed
  have Q2: "\<forall>r\<in>insert c dn. \<forall>u. target (h' r) = Some u \<longrightarrow> r \<in> set (xrefs (h' u))"
  proof (intro ballI allI impI)
    fix r u assume r: "r \<in> insert c dn" and u: "target (h' r) = Some u"
    show "r \<in> set (xrefs (h' u))"
    proof (cases "r = c")
      case True
      with u tc xt show ?thesis by simp
    next
      case False
      with r u tr have "r \<in> dn" "target (h r) = Some u" by auto
      from P2 [OF this] have ru: "r \<in> set (xrefs (h u))" .
      show ?thesis
      proof (cases "u = t")
        case True
        with ru xt show ?thesis by simp
      next
        case False
        with ru xn show ?thesis by simp
      qed
    qed
  qed
  have Q3: "\<forall>r\<in>N - insert c dn. target (h' r) = None"
  proof
    fix r assume "r \<in> N - insert c dn"
    then have "r \<in> N" "r \<notin> dn" "r \<noteq> c" by auto
    with P3 tr show "target (h' r) = None" by simp
  qed
  have Q4: "\<forall>n\<in>N. distinct (xrefs (h' n))"
  proof
    fix n assume "n \<in> N"
    from P4 [OF this] show "distinct (xrefs (h' n))" using dt xn by (cases "n = t") auto
  qed
  from Q1 Q2 Q3 Q4 show ?thesis unfolding xinv_def by (intro conjI)
qed

lemma xinv_loop:
  "label_loop D bcs h rs = Inr h' \<Longrightarrow> xinv N dn h \<Longrightarrow> distinct rs \<Longrightarrow> set rs \<subseteq> N \<Longrightarrow>
   set rs \<inter> dn = {} \<Longrightarrow> xinv N (dn \<union> set rs) h'"
proof (induction rs arbitrary: h dn)
  case Nil
  then show ?case by simp
next
  case (Cons c cs)
  then obtain h1 where h1: "apply_label D bcs h c = Inr h1"
    and rest: "label_loop D bcs h1 cs = Inr h'"
    by (auto split: sum.splits)
  from Cons.prems have c: "c \<in> N" "c \<notin> dn" by auto
  from xinv_step [OF h1 Cons.prems(2) c] have inv1: "xinv N (insert c dn) h1" .
  from Cons.prems have "distinct cs" "set cs \<subseteq> N" "set cs \<inter> insert c dn = {}" by auto
  from Cons.IH [OF rest inv1 this] show ?case by simp
qed

lemma xinv_clear: "xinv (set ns) {} (clear_labels h ns)"
  by (simp add: xinv_def clear_labels_in)

lemma apply_label_target_other:
  assumes "apply_label D bcs h c = Inr h'" and "r \<noteq> c"
  shows "target (h' r) = target (h r)"
proof (cases "\<exists>l. has_label D (h c) l")
  case False
  then have "\<forall>l. \<not> has_label D (h c) l" by simp
  from apply_label_no_label [OF assms(1) this] show ?thesis by simp
next
  case True
  then obtain l where "has_label D (h c) l" ..
  from apply_label_has_label [OF assms(1) this] assms(2) show ?thesis by blast
qed

lemma label_loop_target_out:
  "label_loop D bcs h rs = Inr h' \<Longrightarrow> r \<notin> set rs \<Longrightarrow> target (h' r) = target (h r)"
proof (induction rs arbitrary: h)
  case Nil
  then show ?case by simp
next
  case (Cons c cs)
  then obtain h1 where h1: "apply_label D bcs h c = Inr h1"
    and rest: "label_loop D bcs h1 cs = Inr h'"
    by (auto split: sum.splits)
  from Cons.prems have "r \<noteq> c" "r \<notin> set cs" by auto
  with Cons.IH [OF rest] apply_label_target_other [OF h1] show ?case by simp
qed

lemma label_loop_target_in:
  "label_loop D bcs h rs = Inr h' \<Longrightarrow> distinct rs \<Longrightarrow> r \<in> set rs \<Longrightarrow> has_label D (h r) l \<Longrightarrow>
   target (h' r) = bcs l \<and> bcs l \<noteq> None"
proof (induction rs arbitrary: h)
  case Nil
  then show ?case by simp
next
  case (Cons c cs)
  then obtain h1 where h1: "apply_label D bcs h c = Inr h1"
    and rest: "label_loop D bcs h1 cs = Inr h'"
    by (auto split: sum.splits)
  show ?case
  proof (cases "r = c")
    case True
    with Cons.prems have "r \<notin> set cs" by simp
    from label_loop_target_out [OF rest this] have eq: "target (h' r) = target (h1 r)" .
    from Cons.prems(4) True have "has_label D (h c) l" by simp
    from apply_label_has_label [OF h1 this]
    obtain t where "bcs l = Some t" "target (h1 c) = Some t" by blast
    with eq True show ?thesis by simp
  next
    case False
    with Cons.prems have r: "r \<in> set cs" and d: "distinct cs" by auto
    from apply_label_frame [OF h1, of r] Cons.prems(4) have "has_label D (h1 r) l"
      using has_label_frame [of "h1 r" "h r" D l] by simp
    from Cons.IH [OF rest d r this] show ?thesis .
  qed
qed

lemma apply_labels_result:
  assumes "apply_labels D g start = Some (Inr g')"
  shows "\<exists>ns h. nodes g start = Some ns
    \<and> label_loop D (bytecodes g) (clear_labels (heap g) ns) ns = Inr h \<and> g' = g\<lparr>heap := h\<rparr>"
proof (cases "nodes g start")
  case None
  with assms show ?thesis by (simp add: apply_labels_def)
next
  case (Some ns)
  show ?thesis
  proof (cases "label_loop D (bytecodes g) (clear_labels (heap g) ns) ns")
    case (Inl e)
    with Some assms show ?thesis by (simp add: apply_labels_def)
  next
    case (Inr h)
    with Some assms have "g' = g\<lparr>heap := h\<rparr>" by (simp add: apply_labels_def)
    with Some Inr show ?thesis by simp
  qed
qed

lemma apply_labels_frame:
  assumes "apply_labels D g start = Some (Inr g')"
  shows "opcode (heap g' r) = opcode (heap g r) \<and> addr (heap g' r) = addr (heap g r)
    \<and> oparg (heap g' r) = oparg (heap g r) \<and> prev (heap g' r) = prev (heap g r)
    \<and> nxt (heap g' r) = nxt (heap g r) \<and> bc_lnotab (heap g' r) = bc_lnotab (heap g r)"
proof -
  from apply_labels_result [OF assms] obtain ns h where
    loop: "label_loop D (bytecodes g) (clear_labels (heap g) ns) ns = Inr h"
    and g': "g' = g\<lparr>heap := h\<rparr>"
    by blast
  from g' have hh: "heap g' = h" by simp
  from label_loop_frame [OF loop, of r] clear_labels_frame [of "heap g" ns r]
  show ?thesis unfolding hh by simp
qed

lemma apply_labels_graph:
  assumes "apply_labels D g start = Some (Inr g')"
  shows "base g' = base g \<and> code g' = code g \<and> head g' = head g \<and> bytecodes g' = bytecodes g
    \<and> nodes g' s = nodes g s"
proof -
  from apply_labels_result [OF assms] obtain h where eq: "g' = g\<lparr>heap := h\<rparr>" by blast
  have nf: "nodes_from (heap g') c = nodes_from (heap g) c" for c
  proof (rule nodes_from_cong)
    fix r show "nxt (heap g' r) = nxt (heap g r)" using apply_labels_frame [OF assms] by simp
  qed
  have hd: "head g' = head g" by (simp add: eq)
  have "nodes g' s = nodes g s" by (cases s) (simp_all add: nodes_def nf hd)
  moreover have "base g' = base g" "code g' = code g" "bytecodes g' = bytecodes g"
    by (simp_all add: eq)
  ultimately show ?thesis using hd by simp
qed

lemma apply_labels_xinv:
  assumes "apply_labels D g None = Some (Inr g')" and "nodes g None = Some ns"
  shows "xinv (set ns) (set ns) (heap g')"
proof -
  from apply_labels_result [OF assms(1)] obtain ms h where "nodes g None = Some ms"
    and "label_loop D (bytecodes g) (clear_labels (heap g) ms) ms = Inr h"
    and "g' = g\<lparr>heap := h\<rparr>"
    by blast
  with assms(2)
  have loop: "label_loop D (bytecodes g) (clear_labels (heap g) ns) ns = Inr (heap g')"
    by simp
  from assms(2) have "distinct ns"
    by (simp add: nodes_def nodes_from_linked linked_distinct)
  from xinv_loop [OF loop xinv_clear this] show ?thesis by simp
qed

lemma xinv_target: "xinv N dn h \<Longrightarrow> n \<in> N \<Longrightarrow> r \<in> set (xrefs (h n)) \<Longrightarrow> target (h r) = Some n"
  unfolding xinv_def by blast


lemma xinv_xrefs: "xinv N dn h \<Longrightarrow> r \<in> dn \<Longrightarrow> target (h r) = Some t \<Longrightarrow> r \<in> set (xrefs (h t))"
  unfolding xinv_def by blast

lemma xinv_distinct: "xinv N dn h \<Longrightarrow> n \<in> N \<Longrightarrow> distinct (xrefs (h n))"
  unfolding xinv_def by blast

text \<open>
  C6. Cross-reference symmetry. When \<^verbatim>\<open>apply_labels()\<close> returns, for all nodes \<open>n\<close> and
  \<open>r\<close> of the list from \<^verbatim>\<open>head\<close>, \<open>r\<close> is in the \<^verbatim>\<open>xrefs\<close> of \<open>n\<close> exactly when the
  target of \<open>r\<close> is \<open>n\<close>; every node of the list with a target is in the \<^verbatim>\<open>xrefs\<close> of
  that target; and no \<^verbatim>\<open>xrefs\<close> list of a node of the list holds a referrer twice.
\<close>

theorem apply_labels_symmetry:
  assumes "apply_labels D g None = Some (Inr g')"
  shows "\<exists>ns. nodes g' None = Some ns
    \<and> (\<forall>n\<in>set ns. \<forall>r\<in>set ns. (r \<in> set (xrefs (heap g' n))) = (target (heap g' r) = Some n))
    \<and> (\<forall>r\<in>set ns. \<forall>t. target (heap g' r) = Some t \<longrightarrow> r \<in> set (xrefs (heap g' t)))
    \<and> (\<forall>n\<in>set ns. distinct (xrefs (heap g' n)))"
proof -
  from apply_labels_result [OF assms] obtain ns where ns: "nodes g None = Some ns" by blast
  from apply_labels_xinv [OF assms ns] have inv: "xinv (set ns) (set ns) (heap g')" .
  from apply_labels_graph [OF assms, of None] ns have 0: "nodes g' None = Some ns" by simp
  have 1: "\<forall>n\<in>set ns. \<forall>r\<in>set ns. (r \<in> set (xrefs (heap g' n))) = (target (heap g' r) = Some n)"
  proof (intro ballI iffI)
    fix n r assume "n \<in> set ns" "r \<in> set (xrefs (heap g' n))"
    with inv show "target (heap g' r) = Some n" by (rule xinv_target)
  next
    fix n r assume "r \<in> set ns" "target (heap g' r) = Some n"
    with inv show "r \<in> set (xrefs (heap g' n))" by (rule xinv_xrefs)
  qed
  have 2: "\<forall>r\<in>set ns. \<forall>t. target (heap g' r) = Some t \<longrightarrow> r \<in> set (xrefs (heap g' t))"
  proof (intro ballI allI impI)
    fix r t assume "r \<in> set ns" "target (heap g' r) = Some t"
    with inv show "r \<in> set (xrefs (heap g' t))" by (rule xinv_xrefs)
  qed
  have 3: "\<forall>n\<in>set ns. distinct (xrefs (heap g' n))"
  proof
    fix n assume "n \<in> set ns"
    with inv show "distinct (xrefs (heap g' n))" by (rule xinv_distinct)
  qed
  from 0 1 2 3 show ?thesis by (intro exI [of _ ns] conjI)
qed

lemma map_result_Inr: "m = Some (Inr v) \<Longrightarrow> map_result f m = Some (Inr y) \<Longrightarrow> f v = y"
  by (simp add: map_result_def bind_result_def)

theorem apply_labels_symmetry_witness:
  "\<exists>g'. apply_labels dis27 graph_jump_back None = Some (Inr g')
     \<and> nodes g' None = Some [0, 1, 2] \<and> target (heap g' 1) = Some 0
     \<and> 1 \<in> set (xrefs (heap g' 0)) \<and> distinct (xrefs (heap g' 0))"
proof -
  have "returns (apply_labels dis27 graph_jump_back None)" by code_simp
  then obtain g' where g': "apply_labels dis27 graph_jump_back None = Some (Inr g')"
    by (auto dest: returnsD)
  from apply_labels_symmetry [OF g'] obtain ns where ns: "nodes g' None = Some ns"
    and sym: "\<forall>n\<in>set ns. \<forall>r\<in>set ns. (r \<in> set (xrefs (heap g' n))) = (target (heap g' r) = Some n)"
    and dis: "\<forall>n\<in>set ns. distinct (xrefs (heap g' n))"
    by blast
  have "map_result (\<lambda>g. nodes g None) (apply_labels dis27 graph_jump_back None)
          = Some (Inr (Some [0, 1, 2]))"
    by code_simp
  from map_result_Inr [OF g' this] ns have ns': "ns = [0, 1, 2]" by simp
  have "map_result (\<lambda>g. target (heap g 1)) (apply_labels dis27 graph_jump_back None)
          = Some (Inr (Some 0))"
    by code_simp
  from map_result_Inr [OF g' this] have t: "target (heap g' 1) = Some 0" .
  from sym ns' t have "1 \<in> set (xrefs (heap g' 0))" by simp
  moreover from dis ns' have "distinct (xrefs (heap g' 0))" by simp
  ultimately show ?thesis using g' ns ns' t by simp
qed

section \<open>Relocation\<close>

lemma patch_oparg_other: "patch_oparg D h c = Inr h' \<Longrightarrow> r \<noteq> c \<Longrightarrow> h' r = h r"
  by (auto simp: patch_oparg_def split: option.splits if_splits)

lemma patch_loop_out: "patch_loop D h ns = Inr h' \<Longrightarrow> r \<notin> set ns \<Longrightarrow> h' r = h r"
proof (induction ns arbitrary: h)
  case Nil
  then show ?case by simp
next
  case (Cons c cs)
  then obtain h1 where h1: "patch_oparg D h c = Inr h1" and rest: "patch_loop D h1 cs = Inr h'"
    by (auto split: sum.splits)
  from Cons.prems have "r \<noteq> c" "r \<notin> set cs" by auto
  with Cons.IH [OF rest] patch_oparg_other [OF h1] show ?case by simp
qed

lemma aims_at_frame:
  assumes "opcode (h' r) = opcode (h r)" "addr (h' r) = addr (h r)" "oparg (h' r) = oparg (h r)"
    "addr (h' t) = addr (h t)"
  shows "aims_at D h' r t = aims_at D h r t"
  using assms by (simp add: aims_at_def len_def)

lemma patch_oparg_aims:
  assumes "patch_oparg D h c = Inr h'" and "is_jump D (h c)"
  shows "\<exists>t. target (h c) = Some t \<and> aims_at D h' c t"
proof (cases "target (h c)")
  case None
  with assms show ?thesis by (auto simp: patch_oparg_def is_jump_def split: if_splits)
next
  case (Some t)
  with assms have "aims_at D h' c t"
    by (auto simp: patch_oparg_def is_jump_def aims_at_def len_def split: if_splits)
  with Some show ?thesis by simp
qed

lemma patch_loop_aims:
  "patch_loop D h ns = Inr h' \<Longrightarrow> r \<in> set ns \<Longrightarrow> is_jump D (h r) \<Longrightarrow>
   \<exists>t. target (h r) = Some t \<and> aims_at D h' r t"
proof (induction ns arbitrary: h)
  case Nil
  then show ?case by simp
next
  case (Cons c cs)
  then obtain h1 where h1: "patch_oparg D h c = Inr h1" and rest: "patch_loop D h1 cs = Inr h'"
    by (auto split: sum.splits)
  note fr = patch_oparg_frame [OF h1]
  show ?case
  proof (cases "r \<in> set cs")
    case True
    from Cons.prems(3) fr [of r] have "is_jump D (h1 r)" by (simp add: is_jump_def)
    from Cons.IH [OF rest True this] fr [of r] show ?thesis by simp
  next
    case False
    with Cons.prems have rc: "r = c" by simp
    from patch_oparg_aims [OF h1] Cons.prems(3) rc
    obtain t where t: "target (h r) = Some t" and a: "aims_at D h1 r t" by auto
    from patch_loop_out [OF rest False] have r: "h' r = h1 r" .
    from patch_loop_frame [OF rest, of t] have "addr (h' t) = addr (h1 t)" by simp
    with r a have "aims_at D h' r t" using aims_at_frame [of h' r h1 t D] by simp
    with t show ?thesis by simp
  qed
qed

lemma aims_at_label:
  "is_jump D (h r) \<Longrightarrow> aims_at D h r t \<Longrightarrow> label_of D (h r) = Inr (Some (addr (h t)))"
  by (auto simp: is_jump_def aims_at_def label_of_def)

lemma patch_opargs_result:
  assumes "patch_opargs D g start = Some (Inr g')"
  shows "\<exists>ns h. nodes g start = Some ns \<and> patch_loop D (heap g) ns = Inr h \<and> g' = g\<lparr>heap := h\<rparr>"
proof -
  let ?s = "case start of None \<Rightarrow> head g | Some s \<Rightarrow> Some s"
  from assms obtain h where p: "patch_from D (heap g) ?s = Some (Inr h)"
    and g': "g' = g\<lparr>heap := h\<rparr>"
    by (auto simp: patch_opargs_def map_result_Some_Inr)
  from patch_from_returns [OF p] obtain ns where l: "linked (heap g) ?s ns"
    and loop: "patch_loop D (heap g) ns = Inr h"
    by blast
  from l have "nodes g start = Some ns" by (simp add: nodes_def nodes_from_linked)
  with loop g' show ?thesis by blast
qed

lemma refactor_result:
  assumes "refactor D g = Some (Inr g')"
  shows "\<exists>ns h1 nb h2. nodes g None = Some ns
    \<and> refactor_loop D (heap g) Map.empty (base g) ns = (h1, nb)
    \<and> patch_loop D h1 ns = Inr h2
    \<and> apply_labels D (g\<lparr>bytecodes := nb, heap := h2\<rparr>) None = Some (Inr g')"
proof (cases "nodes g None")
  case None
  with assms show ?thesis by (simp add: refactor_def)
next
  case (Some ns)
  obtain h1 nb where loop: "refactor_loop D (heap g) Map.empty (base g) ns = (h1, nb)"
    by (cases "refactor_loop D (heap g) Map.empty (base g) ns") auto
  let ?g1 = "g\<lparr>heap := h1, bytecodes := nb\<rparr>"
  from assms Some loop obtain g2 where p: "patch_opargs D ?g1 None = Some (Inr g2)"
    and l: "apply_labels D g2 None = Some (Inr g')"
    by (auto simp: refactor_def bind_result_Inr)
  have "nodes_from h1 c = nodes_from (heap g) c" for c
  proof (rule nodes_from_cong)
    fix r show "nxt (h1 r) = nxt (heap g r)" using refactor_loop_frame [OF loop] by simp
  qed
  with Some have n1: "nodes ?g1 None = Some ns" by (simp add: nodes_def)
  from patch_opargs_result [OF p] n1 obtain h2 where "patch_loop D h1 ns = Inr h2"
    and "g2 = ?g1\<lparr>heap := h2\<rparr>"
    by auto
  with Some loop l show ?thesis by simp
qed

lemma refactor_parts:
  assumes "refactor D g = Some (Inr g')"
  shows "\<exists>ns h1 nb h2. nodes g None = Some ns
    \<and> refactor_loop D (heap g) Map.empty (base g) ns = (h1, nb)
    \<and> patch_loop D h1 ns = Inr h2
    \<and> apply_labels D (g\<lparr>bytecodes := nb, heap := h2\<rparr>) None = Some (Inr g')
    \<and> distinct ns
    \<and> nodes g' None = Some ns
    \<and> bytecodes g' = nb \<and> base g' = base g
    \<and> (\<forall>r. addr (heap g' r) = addr (h1 r))
    \<and> (\<forall>r. opcode (heap g' r) = opcode (heap g r))
    \<and> (\<forall>r. oparg (heap g' r) = oparg (h2 r))
    \<and> (\<forall>r. target (h1 r) = target (heap g r))"
proof -
  from refactor_result [OF assms] obtain ns h1 nb h2 where
    ns: "nodes g None = Some ns"
    and loop: "refactor_loop D (heap g) Map.empty (base g) ns = (h1, nb)"
    and patch: "patch_loop D h1 ns = Inr h2"
    and labels: "apply_labels D (g\<lparr>bytecodes := nb, heap := h2\<rparr>) None = Some (Inr g')"
    by blast
  let ?g2 = "g\<lparr>bytecodes := nb, heap := h2\<rparr>"
  from ns have d: "distinct ns" by (simp add: nodes_def nodes_from_linked linked_distinct)
  have "nodes_from h2 c = nodes_from (heap g) c" for c
  proof (rule nodes_from_cong)
    fix r show "nxt (h2 r) = nxt (heap g r)"
      using refactor_loop_frame [OF loop, of r] patch_loop_frame [OF patch, of r] by simp
  qed
  with ns have "nodes ?g2 None = Some ns" by (simp add: nodes_def)
  with apply_labels_graph [OF labels, of None] have n': "nodes g' None = Some ns"
    and b': "bytecodes g' = nb" and base': "base g' = base g"
    by simp_all
  have a: "addr (heap g' r) = addr (h1 r)" for r
    using apply_labels_frame [OF labels, of r] patch_loop_frame [OF patch, of r] by simp
  have o: "opcode (heap g' r) = opcode (heap g r)" for r
    using apply_labels_frame [OF labels, of r] patch_loop_frame [OF patch, of r]
      refactor_loop_frame [OF loop, of r] by simp
  have p: "oparg (heap g' r) = oparg (h2 r)" for r
    using apply_labels_frame [OF labels, of r] by simp
  have t: "target (h1 r) = target (heap g r)" for r
    using refactor_loop_frame [OF loop, of r] by simp
  from ns loop patch labels d n' b' base' a o p t show ?thesis by blast
qed

lemma refactor_loop_table:
  assumes loop: "refactor_loop D h Map.empty off ns = (h', nb)" and d: "distinct ns"
  shows "(nb a = Some r) = (r \<in> set ns \<and> addr (h' r) = a)"
proof (cases "a < off")
  case True
  with refactor_loop_lookup [OF loop d] have "nb a = None" by simp
  moreover from refactor_loop_consecutive [OF loop d]
  have "r \<in> set ns \<Longrightarrow> off \<le> addr (h' r)" by (rule consecutive_lower)
  ultimately show ?thesis using True by auto
next
  case False
  then have "off \<le> a" by simp
  with refactor_loop_lookup [OF loop d] show ?thesis by simp
qed

text \<open>
  C8. Address monotonicity. When \<^verbatim>\<open>refactor\<close> returns, the nodes of the list from
  \<^verbatim>\<open>head\<close> have the addresses base, base + length of the first node, and so on: each
  address is the address of the node before plus that node's length (\<open>consecutive\<close>),
  and so the addresses increase strictly.
\<close>

theorem refactor_addresses:
  assumes "refactor D g = Some (Inr g')"
  shows "\<exists>ns. nodes g' None = Some ns \<and> consecutive D (heap g') (base g') ns
     \<and> sorted_wrt (<) (map (\<lambda>r. addr (heap g' r)) ns)"
proof -
  from refactor_parts [OF assms] obtain ns h1 nb h2 where ns: "nodes g None = Some ns"
    and loop: "refactor_loop D (heap g) Map.empty (base g) ns = (h1, nb)"
    and patch: "patch_loop D h1 ns = Inr h2"
    and labels: "apply_labels D (g\<lparr>bytecodes := nb, heap := h2\<rparr>) None = Some (Inr g')"
    and d: "distinct ns" and n': "nodes g' None = Some ns"
    and b': "bytecodes g' = nb" and b: "base g' = base g"
    and a: "\<forall>r. addr (heap g' r) = addr (h1 r)"
    and o: "\<forall>r. opcode (heap g' r) = opcode (heap g r)"
    and p: "\<forall>r. oparg (heap g' r) = oparg (h2 r)"
    and t1: "\<forall>r. target (h1 r) = target (heap g r)"
    by blast
  from refactor_loop_frame [OF loop] have o1: "\<And>r. opcode (h1 r) = opcode (heap g r)" by simp
  from refactor_loop_consecutive [OF loop d] have "consecutive D h1 (base g) ns" .
  then have c: "consecutive D (heap g') (base g') ns"
    using consecutive_cong [of ns "heap g'" h1 D "base g"] a o o1 b by simp
  from consecutive_increasing [OF c] n' c show ?thesis by blast
qed

lemma refactor_keeps_target:
  assumes r: "refactor D g = Some (Inr g')" and base: "0 \<le> base g"
    and ns: "nodes g None = Some ns" and rin: "r \<in> set ns" and j: "is_jump D (heap g r)"
    and t: "target (heap g r) = Some t" and tin: "t \<in> set ns"
  shows "target (heap g' r) = Some t \<and> r \<in> set (xrefs (heap g' t))"
proof -
  from refactor_parts [OF r] obtain ms h1 nb h2 where ms: "nodes g None = Some ms"
    and loop: "refactor_loop D (heap g) Map.empty (base g) ms = (h1, nb)"
    and patch: "patch_loop D h1 ms = Inr h2"
    and labels: "apply_labels D (g\<lparr>bytecodes := nb, heap := h2\<rparr>) None = Some (Inr g')"
    and d: "distinct ms" and n': "nodes g' None = Some ms"
    and b': "bytecodes g' = nb" and b: "base g' = base g"
    and a: "\<forall>r. addr (heap g' r) = addr (h1 r)"
    and o: "\<forall>r. opcode (heap g' r) = opcode (heap g r)"
    and p: "\<forall>r. oparg (heap g' r) = oparg (h2 r)"
    and t1: "\<forall>r. target (h1 r) = target (heap g r)"
    by blast
  from ms ns have eq: "ms = ns" by simp
  let ?g2 = "g\<lparr>bytecodes := nb, heap := h2\<rparr>"
  note f1 = refactor_loop_frame [OF loop]
  note f2 = patch_loop_frame [OF patch]
  from j f1 [of r] have j1: "is_jump D (h1 r)" by (simp add: is_jump_def)
  from patch_loop_aims [OF patch _ j1] rin eq t f1 [of r] have aim: "aims_at D h2 r t" by auto
  from j1 f2 [of r] have j2: "is_jump D (h2 r)" by (simp add: is_jump_def)
  from aims_at_label [OF j2 aim] have lab: "label_of D (h2 r) = Inr (Some (addr (h2 t)))" .
  from refactor_loop_consecutive [OF loop d] tin eq have "base g \<le> addr (h1 t)"
    by (auto dest: consecutive_lower)
  with base f2 [of t] have pos: "0 \<le> addr (h2 t)" by simp
  from refactor_loop_table [OF loop d, of "addr (h1 t)" t] tin eq f2 [of t]
  have look: "nb (addr (h2 t)) = Some t" by simp
  from apply_labels_result [OF labels] obtain ks h where ks: "nodes ?g2 None = Some ks"
    and ll: "label_loop D (bytecodes ?g2) (clear_labels (heap ?g2) ks) ks = Inr h"
    and g': "g' = ?g2\<lparr>heap := h\<rparr>"
    by blast
  from apply_labels_graph [OF labels, of None] n' ks have kn: "ks = ns" using eq by simp
  have "has_label D (clear_labels h2 ns r) (addr (h2 t))"
    using lab pos clear_labels_frame [of h2 ns r]
      has_label_frame [of "clear_labels h2 ns r" "h2 r" D "addr (h2 t)"]
    by (simp add: has_label_def)
  with label_loop_target_in [of D nb "clear_labels h2 ns" ns h r "addr (h2 t)"] ll kn d eq rin look
  have tg: "target (h r) = Some t" by simp
  from apply_labels_xinv [OF labels ks] have "xinv (set ns) (set ns) (heap g')" using kn by simp
  from xinv_xrefs [OF this rin] tg g' have "r \<in> set (xrefs (heap g' t))" by simp
  with tg g' show ?thesis by simp
qed

text \<open>
  C3, as amended. When \<^verbatim>\<open>refactor\<close> returns, with \<open>ns\<close> the nodes of the list from
  \<^verbatim>\<open>head\<close>: the addresses are the running offset from the base, advanced by the length of
  each node; the lookup maps an address to a node exactly when the node is in the list and
  has that address; the operand of a relative jump is the address of the node that was its
  target when \<^verbatim>\<open>refactor\<close> was called, minus the jump's own address plus length, and the
  operand of an absolute jump is the address of that node; the targets are then resolved
  again from the patched operands through the new lookup, which for a graph with a base of
  0 or more gives every jump whose old target is in the list that same target.
\<close>

theorem refactor_contract:
  assumes "refactor D g = Some (Inr g')"
  shows "\<exists>ns. nodes g None = Some ns \<and> nodes g' None = Some ns
    \<and> consecutive D (heap g') (base g) ns
    \<and> (\<forall>a r. (bytecodes g' a = Some r) = (r \<in> set ns \<and> addr (heap g' r) = a))
    \<and> (\<forall>r\<in>set ns. HAVE_ARGUMENT D \<le> opcode (heap g r) \<longrightarrow> opcode (heap g r) \<in> set (hasjrel D) \<longrightarrow>
          (\<exists>t. target (heap g r) = Some t \<and>
             oparg (heap g' r)
               = Some (addr (heap g' t) - (addr (heap g' r) + int (len D (heap g' r))))))
    \<and> (\<forall>r\<in>set ns. HAVE_ARGUMENT D \<le> opcode (heap g r) \<longrightarrow> opcode (heap g r) \<notin> set (hasjrel D) \<longrightarrow>
          opcode (heap g r) \<in> set (hasjabs D) \<longrightarrow>
          (\<exists>t. target (heap g r) = Some t \<and> oparg (heap g' r) = Some (addr (heap g' t))))
    \<and> (\<forall>r\<in>set ns. \<forall>l. has_label D (heap g' r) l \<longrightarrow> target (heap g' r) = bytecodes g' l)
    \<and> (0 \<le> base g \<longrightarrow>
          (\<forall>r\<in>set ns. \<forall>t\<in>set ns. is_jump D (heap g r) \<longrightarrow> target (heap g r) = Some t \<longrightarrow>
             target (heap g' r) = Some t))"
proof -
  from refactor_parts [OF assms] obtain ns h1 nb h2 where ns: "nodes g None = Some ns"
    and loop: "refactor_loop D (heap g) Map.empty (base g) ns = (h1, nb)"
    and patch: "patch_loop D h1 ns = Inr h2"
    and labels: "apply_labels D (g\<lparr>bytecodes := nb, heap := h2\<rparr>) None = Some (Inr g')"
    and d: "distinct ns" and n': "nodes g' None = Some ns"
    and b': "bytecodes g' = nb" and b: "base g' = base g"
    and a: "\<forall>r. addr (heap g' r) = addr (h1 r)"
    and o: "\<forall>r. opcode (heap g' r) = opcode (heap g r)"
    and p: "\<forall>r. oparg (heap g' r) = oparg (h2 r)"
    and t1: "\<forall>r. target (h1 r) = target (heap g r)"
    by blast
  let ?g2 = "g\<lparr>bytecodes := nb, heap := h2\<rparr>"
  note f1 = refactor_loop_frame [OF loop]
  note f2 = patch_loop_frame [OF patch]
  have o1: "opcode (h1 r) = opcode (heap g r)" for r using f1 [of r] by simp
  have l': "len D (heap g' r) = len D (h2 r)" for r
    using o f2 [of r] o1 [of r] by (simp add: len_def)
  have a2: "addr (h2 r) = addr (heap g' r)" for r using a f2 [of r] by simp
  from refactor_loop_consecutive [OF loop d] have "consecutive D h1 (base g) ns" .
  then have 1: "consecutive D (heap g') (base g) ns"
    using consecutive_cong [of ns "heap g'" h1 D "base g"] a o o1 by simp
  have 2: "\<forall>a r. (bytecodes g' a = Some r) = (r \<in> set ns \<and> addr (heap g' r) = a)"
    using refactor_loop_table [OF loop d] a b' by simp
  have aim: "\<exists>t. target (heap g r) = Some t \<and> aims_at D h2 r t"
    if "r \<in> set ns" "is_jump D (heap g r)" for r
  proof -
    from that(2) o1 [of r] have "is_jump D (h1 r)" by (simp add: is_jump_def)
    from patch_loop_aims [OF patch that(1) this] t1 show ?thesis by simp
  qed
  have 3: "\<forall>r\<in>set ns. HAVE_ARGUMENT D \<le> opcode (heap g r) \<longrightarrow> opcode (heap g r) \<in> set (hasjrel D) \<longrightarrow>
          (\<exists>t. target (heap g r) = Some t \<and>
             oparg (heap g' r)
               = Some (addr (heap g' t) - (addr (heap g' r) + int (len D (heap g' r)))))"
  proof (intro ballI impI)
    fix r assume r: "r \<in> set ns" and "HAVE_ARGUMENT D \<le> opcode (heap g r)"
      and rel: "opcode (heap g r) \<in> set (hasjrel D)"
    then have "is_jump D (heap g r)" by (simp add: is_jump_def)
    from aim [OF r this] obtain t where t: "target (heap g r) = Some t" and "aims_at D h2 r t"
      by blast
    with rel f2 [of r] o1 [of r]
    have "oparg (h2 r) = Some (addr (h2 t) - (addr (h2 r) + int (len D (h2 r))))"
      by (simp add: aims_at_def)
    with t p a2 l' show "\<exists>t. target (heap g r) = Some t \<and>
             oparg (heap g' r)
               = Some (addr (heap g' t) - (addr (heap g' r) + int (len D (heap g' r))))"
      by simp
  qed
  have 4: "\<forall>r\<in>set ns. HAVE_ARGUMENT D \<le> opcode (heap g r) \<longrightarrow> opcode (heap g r) \<notin> set (hasjrel D) \<longrightarrow>
          opcode (heap g r) \<in> set (hasjabs D) \<longrightarrow>
          (\<exists>t. target (heap g r) = Some t \<and> oparg (heap g' r) = Some (addr (heap g' t)))"
  proof (intro ballI impI)
    fix r assume r: "r \<in> set ns" and "HAVE_ARGUMENT D \<le> opcode (heap g r)"
      and rel: "opcode (heap g r) \<notin> set (hasjrel D)"
      and "opcode (heap g r) \<in> set (hasjabs D)"
    then have "is_jump D (heap g r)" by (simp add: is_jump_def)
    from aim [OF r this] obtain t where t: "target (heap g r) = Some t" and "aims_at D h2 r t"
      by blast
    with rel f2 [of r] o1 [of r] have "oparg (h2 r) = Some (addr (h2 t))"
      by (simp add: aims_at_def)
    with t p a2 show "\<exists>t. target (heap g r) = Some t \<and> oparg (heap g' r) = Some (addr (heap g' t))"
      by simp
  qed
  from apply_labels_result [OF labels] obtain ks h where ks: "nodes ?g2 None = Some ks"
    and ll: "label_loop D (bytecodes ?g2) (clear_labels (heap ?g2) ks) ks = Inr h"
    and g': "g' = ?g2\<lparr>heap := h\<rparr>"
    by blast
  from apply_labels_graph [OF labels, of None] n' ks have kn: "ks = ns" by simp
  have 5: "\<forall>r\<in>set ns. \<forall>l. has_label D (heap g' r) l \<longrightarrow> target (heap g' r) = bytecodes g' l"
  proof (intro ballI allI impI)
    fix r l assume r: "r \<in> set ns" and l: "has_label D (heap g' r) l"
    from apply_labels_frame [OF labels, of r] clear_labels_frame [of h2 ns r]
    have "has_label D (clear_labels h2 ns r) l = has_label D (heap g' r) l"
      by (intro has_label_frame) simp_all
    with l have "has_label D (clear_labels h2 ns r) l" by simp
    with label_loop_target_in [of D nb "clear_labels h2 ns" ns h r l] ll kn d r
    have "target (h r) = nb l" by simp
    with g' b' show "target (heap g' r) = bytecodes g' l" by simp
  qed
  have 6: "0 \<le> base g \<longrightarrow>
          (\<forall>r\<in>set ns. \<forall>t\<in>set ns. is_jump D (heap g r) \<longrightarrow> target (heap g r) = Some t \<longrightarrow>
             target (heap g' r) = Some t)"
    using refactor_keeps_target [OF assms _ ns] by blast
  from ns n' 1 2 3 4 5 6 show ?thesis by blast
qed

text \<open>
  The claim C3 has the cross references resolved before the operands are patched
  (\<open>relocate_spec\<close>). On the graph of \<^verbatim>\<open>JUMP_ABSOLUTE 4; NOP; NOP; RETURN_VALUE\<close> with the
  first \<^verbatim>\<open>NOP\<close> deleted, \<^verbatim>\<open>refactor\<close> leaves the jump at the second \<^verbatim>\<open>NOP\<close>, now at
  address 3, with the operand 3; the order of the claim resolves the stale operand 4 at the
  new addresses and leaves the jump at \<^verbatim>\<open>RETURN_VALUE\<close>.
\<close>

theorem refactor_order_counterexample:
  "map_result (\<lambda>g. (nodes g None, oparg (heap g 0), target (heap g 0))) (refactor dis27 graph_deleted)
     = Some (Inr (Some [0, 2, 3], Some 3, Some 2))
   \<and> map_result (\<lambda>g. (nodes g None, oparg (heap g 0), target (heap g 0)))
       (relocate_spec dis27 graph_deleted)
     = Some (Inr (Some [0, 2, 3], Some 4, Some 3))"
  by code_simp

theorem refactor_contract_witness:
  "\<exists>g'. refactor dis27 graph_deleted = Some (Inr g')
     \<and> nodes g' None = Some [0, 2, 3]
     \<and> consecutive dis27 (heap g') 0 [0, 2, 3]
     \<and> bytecodes g' (addr (heap g' 2)) = Some 2
     \<and> oparg (heap g' 0) = Some (addr (heap g' 2))
     \<and> target (heap g' 0) = Some 2"
proof -
  have "returns (refactor dis27 graph_deleted)" by code_simp
  then obtain g' where g': "refactor dis27 graph_deleted = Some (Inr g')"
    by (auto dest: returnsD)
  have pre: "nodes graph_deleted None = Some [0, 2, 3]" "base graph_deleted = 0"
    "opcode (heap graph_deleted 0) = 113" "target (heap graph_deleted 0) = Some 2"
    by code_simp+
  have j: "is_jump dis27 (heap graph_deleted 0)" by (simp add: is_jump_def pre dis27_def)
  from refactor_contract [OF g'] pre(1) have
        n: "nodes g' None = Some [0, 2, 3]"
    and c: "consecutive dis27 (heap g') (base graph_deleted) [0, 2, 3]"
    and t: "\<forall>a r. (bytecodes g' a = Some r) = (r \<in> set [0, 2, 3] \<and> addr (heap g' r) = a)"
    and ab: "\<forall>r\<in>set [0, 2, 3]. HAVE_ARGUMENT dis27 \<le> opcode (heap graph_deleted r) \<longrightarrow>
          opcode (heap graph_deleted r) \<notin> set (hasjrel dis27) \<longrightarrow>
          opcode (heap graph_deleted r) \<in> set (hasjabs dis27) \<longrightarrow>
          (\<exists>t. target (heap graph_deleted r) = Some t \<and> oparg (heap g' r) = Some (addr (heap g' t)))"
    and k: "0 \<le> base graph_deleted \<longrightarrow>
          (\<forall>r\<in>set [0, 2, 3]. \<forall>t\<in>set [0, 2, 3]. is_jump dis27 (heap graph_deleted r) \<longrightarrow>
             target (heap graph_deleted r) = Some t \<longrightarrow> target (heap g' r) = Some t)"
    by auto
  from t have 1: "bytecodes g' (addr (heap g' 2)) = Some 2" by simp
  from ab pre have 2: "oparg (heap g' 0) = Some (addr (heap g' 2))" by (simp add: dis27_def)
  from k pre j have 3: "target (heap g' 0) = Some 2" by simp
  from g' n c pre 1 2 3 show ?thesis by simp
qed

theorem refactor_addresses_witness:
  "\<exists>g'. refactor dis27 graph_deleted = Some (Inr g')
     \<and> nodes g' None = Some [0, 2, 3]
     \<and> addr (heap g' 0) = 0 \<and> addr (heap g' 2) = 3 \<and> addr (heap g' 3) = 4"
proof -
  have "returns (refactor dis27 graph_deleted)" by code_simp
  then obtain g' where g': "refactor dis27 graph_deleted = Some (Inr g')"
    by (auto dest: returnsD)
  from refactor_addresses [OF g'] obtain ns where ns: "nodes g' None = Some ns"
    and c: "consecutive dis27 (heap g') (base g') ns"
    by blast
  have "map_result (\<lambda>g. (nodes g None, base g, map (\<lambda>r. opcode (heap g r)) [0, 2, 3]))
          (refactor dis27 graph_deleted) = Some (Inr (Some [0, 2, 3], 0, [113, 9, 83]))"
    by code_simp
  from map_result_Inr [OF g' this] ns
  have e: "ns = [0, 2, 3]" "base g' = 0" "opcode (heap g' 0) = 113" "opcode (heap g' 2) = 9"
    by simp_all
  from c e have "addr (heap g' 0) = 0 \<and> addr (heap g' 2) = 3 \<and> addr (heap g' 3) = 4"
    by (simp add: len_def dis27_def)
  with g' ns e show ?thesis by simp
qed

section \<open>The constructor on concrete streams\<close>

text \<open>
  C7. The decoder is claimed to work for any base address. With the base address 1 and the
  one-byte stream \<^verbatim>\<open>NOP\<close>, the node is stored under the key 1 and its length is looked up
  under the key 0: the constructor raises \<^verbatim>\<open>KeyError\<close> in the first step of the loop. At
  the base address 0 the same stream is decoded.
\<close>

theorem parse_bytecode_base_1:
  "map_result snd (BytecodeGraph_init dis27 \<lparr>co_code = [9], co_firstlineno = 1, co_lnotab = []\<rparr> 1)
     = Some (Inl KeyError)
   \<and> map_result (\<lambda>(g, printed). (nodes g None, addr (heap g 0)))
       (BytecodeGraph_init dis27 \<lparr>co_code = [9], co_firstlineno = 1, co_lnotab = []\<rparr> 0)
     = Some (Inr (Some [0], 0))"
  by code_simp

text \<open>
  C4. A jump into the middle of an instruction is claimed to be reported and decoding to go
  on. For the stream \<^verbatim>\<open>JUMP_ABSOLUTE 1\<close> the loop of \<^verbatim>\<open>parse_bytecode\<close> ends and the
  address 1 is printed, and then \<^verbatim>\<open>apply_labels\<close> raises \<^verbatim>\<open>KeyError\<close> on
  \<^verbatim>\<open>self.bytecodes[1]\<close>: the constructor returns no graph.
\<close>

theorem nonlinear_jump_raises:
  "map_result (\<lambda>(bcs, h, targets). nonlinear bcs targets)
       (Some (parse_loop dis27 0 [113, 1, 0] Map.empty empty_heap None 0 [] 0))
     = Some (Inr [1])
   \<and> map_result snd
       (BytecodeGraph_init dis27 \<lparr>co_code = [113, 1, 0], co_firstlineno = 1, co_lnotab = []\<rparr> 0)
     = Some (Inl KeyError)"
  by code_simp

text \<open>
  C1. Decoding and encoding at once is claimed to give back the byte stream and the line
  table. With an empty line table \<^verbatim>\<open>apply_lineno\<close> returns before it gives any node a
  line, and \<^verbatim>\<open>calc_lnotab\<close> raises \<^verbatim>\<open>TypeError\<close>; with a table of one pair the second
  \<^verbatim>\<open>pop\<close> of \<^verbatim>\<open>apply_lineno\<close> raises \<^verbatim>\<open>IndexError\<close>; with the table of a module of
  three one-line statements the table returned is another one.
\<close>

theorem roundtrip_line_table_fails:
  "roundtrip dis27 \<lparr>co_code = [100, 0, 0, 83], co_firstlineno = 1, co_lnotab = []\<rparr> 0
     = Some (Inl TypeError)
   \<and> roundtrip dis27 \<lparr>co_code = [100, 0, 0, 90, 0, 0, 100, 1, 0, 83], co_firstlineno = 1,
                       co_lnotab = [6, 1]\<rparr> 0
     = Some (Inl IndexError)
   \<and> roundtrip dis27
       \<lparr>co_code = [100, 0, 0, 90, 0, 0, 100, 1, 0, 90, 1, 0, 100, 2, 0, 83],
        co_firstlineno = 1, co_lnotab = [6, 1, 6, 1]\<rparr> 0
     = Some (Inr \<lparr>co_code = [100, 0, 0, 90, 0, 0, 100, 1, 0, 90, 1, 0, 100, 2, 0, 83],
                  co_firstlineno = 1, co_lnotab = [0, 1, 12, 1]\<rparr>)"
  by code_simp

section \<open>Encoding a graph with a dangling jump\<close>

lemma patch_loop_dangling:
  "r \<in> set ns \<Longrightarrow> is_jump D (h r) \<Longrightarrow> target (h r) = None \<Longrightarrow> \<exists>e. patch_loop D h ns = Inl e"
proof (induction ns arbitrary: h)
  case Nil
  then show ?case by simp
next
  case (Cons c cs)
  show ?case
  proof (cases "patch_oparg D h c")
    case (Inl e)
    then show ?thesis by simp
  next
    case (Inr h1)
    have "r \<noteq> c"
    proof
      assume "r = c"
      with patch_oparg_aims [OF Inr] Cons.prems show False by simp
    qed
    with Cons.prems have r: "r \<in> set cs" by simp
    from patch_oparg_frame [OF Inr, of r] Cons.prems
    have "is_jump D (h1 r)" "target (h1 r) = None" by (simp_all add: is_jump_def)
    from Cons.IH [of h1, OF r this] Inr show ?thesis by simp
  qed
qed

lemma refactor_dangling:
  assumes ns: "nodes g None = Some ns" and r: "r \<in> set ns" and j: "is_jump D (heap g r)"
    and t: "target (heap g r) = None"
  shows "\<exists>e. refactor D g = Some (Inl e)"
proof -
  obtain h1 nb where loop: "refactor_loop D (heap g) Map.empty (base g) ns = (h1, nb)"
    by (cases "refactor_loop D (heap g) Map.empty (base g) ns") auto
  note f = refactor_loop_frame [OF loop]
  from j t f [of r] have "is_jump D (h1 r)" "target (h1 r) = None" by (simp_all add: is_jump_def)
  from patch_loop_dangling [of r ns D h1, OF r this] obtain e where e: "patch_loop D h1 ns = Inl e" ..
  have "nodes_from h1 c = nodes_from (heap g) c" for c
  proof (rule nodes_from_cong)
    fix q show "nxt (h1 q) = nxt (heap g q)" using f [of q] by simp
  qed
  with ns have "nodes (g\<lparr>heap := h1, bytecodes := nb\<rparr>) None = Some ns" by (simp add: nodes_def)
  from patch_opargs_nodes [OF this, of D] e
  have "patch_opargs D (g\<lparr>heap := h1, bytecodes := nb\<rparr>) None = Some (Inl e)"
    by (simp add: map_result_def bind_result_def)
  with ns loop have "refactor D g = Some (Inl e)" by (simp add: refactor_def bind_result_def)
  then show ?thesis ..
qed

lemma bin_loop_concat:
  "bin_loop D h acc ns = Inr bs \<Longrightarrow>
   \<exists>bss. map (\<lambda>r. bin D (h r)) ns = map Inr bss \<and> bs = acc @ concat bss"
proof (induction ns arbitrary: acc)
  case Nil
  then show ?case by simp
next
  case (Cons c cs)
  then obtain b where b: "bin D (h c) = Inr b" and rest: "bin_loop D h (acc @ b) cs = Inr bs"
    by (auto split: sum.splits)
  from Cons.IH [OF rest] obtain bss where "map (\<lambda>r. bin D (h r)) cs = map Inr bss"
    and "bs = (acc @ b) @ concat bss"
    by blast
  with b have "map (\<lambda>r. bin D (h r)) (c # cs) = map Inr (b # bss) \<and> bs = acc @ concat (b # bss)"
    by simp
  then show ?case by blast
qed

lemma get_code_result:
  assumes "get_code D g start = Some (Inr (g', c))"
  shows "refactor D g = Some (Inr g') \<and>
    (\<exists>lt ns. calc_lnotab g' = Some (Inr lt) \<and> nodes g' start = Some ns
       \<and> bin_loop D (heap g') [] ns = Inr (co_code c) \<and> co_lnotab c = lt
       \<and> co_firstlineno c = co_firstlineno (code g'))"
proof -
  from assms obtain g1 lt bs where r: "refactor D g = Some (Inr g1)"
    and l: "calc_lnotab g1 = Some (Inr lt)"
    and b: "bin_from D (heap g1) (case start of None \<Rightarrow> head g1 | Some s \<Rightarrow> Some s) []
          = Some (Inr bs)"
    and eq: "g' = g1" "c = (code g1)\<lparr>co_code := bs, co_lnotab := lt\<rparr>"
    by (auto simp: get_code_def bind_result_Inr map_result_Some_Inr)
  from bin_from_returns [OF b] obtain ns
    where n: "linked (heap g1) (case start of None \<Rightarrow> head g1 | Some s \<Rightarrow> Some s) ns"
    and bs: "bin_loop D (heap g1) [] ns = Inr bs"
    by blast
  from n have ns: "nodes g1 start = Some ns" by (simp add: nodes_def nodes_from_linked)
  with r l bs eq show ?thesis by simp
qed

text \<open>
  C2. A graph whose list holds a jump-class node with the target \<^verbatim>\<open>None\<close> makes
  \<^verbatim>\<open>get_code\<close> raise: it ends with an error and returns no code object. And when
  \<^verbatim>\<open>get_code\<close> does return a code object, its byte stream is the whole serialisation: the
  concatenation of the \<^verbatim>\<open>bin()\<close> of every node from \<^verbatim>\<open>start\<close>, none of which raised.
\<close>

theorem get_code_dangling_target:
  "(nodes g None = Some ns \<and> r \<in> set ns \<and> is_jump D (heap g r) \<and> target (heap g r) = None
      \<longrightarrow> (\<exists>e. get_code D g start = Some (Inl e)))
   \<and> (get_code D g start = Some (Inr (g', c))
      \<longrightarrow> (\<exists>ms bss. nodes g' start = Some ms \<and> map (\<lambda>r. bin D (heap g' r)) ms = map Inr bss
             \<and> co_code c = concat bss))"
proof (intro conjI impI)
  assume "nodes g None = Some ns \<and> r \<in> set ns \<and> is_jump D (heap g r) \<and> target (heap g r) = None"
  then obtain e where "refactor D g = Some (Inl e)" using refactor_dangling by blast
  then have "get_code D g start = Some (Inl e)" by (simp add: get_code_def bind_result_def)
  then show "\<exists>e. get_code D g start = Some (Inl e)" ..
next
  assume "get_code D g start = Some (Inr (g', c))"
  from get_code_result [OF this] obtain ms where ms: "nodes g' start = Some ms"
    and b: "bin_loop D (heap g') [] ms = Inr (co_code c)"
    by blast
  from bin_loop_concat [OF b] ms
  show "\<exists>ms bss. nodes g' start = Some ms \<and> map (\<lambda>r. bin D (heap g' r)) ms = map Inr bss
             \<and> co_code c = concat bss"
    by auto
qed

theorem get_code_dangling_target_witness:
  "nodes graph_dangling None = Some [0] \<and> is_jump dis27 (heap graph_dangling 0)
   \<and> target (heap graph_dangling 0) = None
   \<and> (\<exists>e. get_code dis27 graph_dangling None = Some (Inl e))
   \<and> (\<exists>g' c. get_code dis27 graph_deleted None = Some (Inr (g', c))
        \<and> co_code c = concat [[113, 3, 0], [9], [83]])"
proof -
  have pre: "nodes graph_dangling None = Some [0]" "opcode (heap graph_dangling 0) = 113"
    "target (heap graph_dangling 0) = None"
    by code_simp+
  have j: "is_jump dis27 (heap graph_dangling 0)" by (simp add: is_jump_def pre dis27_def)
  from get_code_dangling_target [of graph_dangling "[0]" 0 dis27 None] pre j
  have 1: "\<exists>e. get_code dis27 graph_dangling None = Some (Inl e)" by simp
  have "returns (get_code dis27 graph_deleted None)" by code_simp
  then obtain g' c where gc: "get_code dis27 graph_deleted None = Some (Inr (g', c))"
    by (auto dest: returnsD)
  with get_code_dangling_target [of graph_deleted _ _ dis27 None g' c]
  obtain ms bss where "nodes g' None = Some ms"
    and "map (\<lambda>r. bin dis27 (heap g' r)) ms = map Inr bss" and cc: "co_code c = concat bss"
    by blast
  have "map_result (\<lambda>(g, c). co_code c) (get_code dis27 graph_deleted None)
          = Some (Inr [113, 3, 0, 9, 83])"
    by code_simp
  from map_result_Inr [OF gc this] have "co_code c = concat [[113, 3, 0], [9], [83]]" by simp
  with gc cc have 2: "\<exists>g' c. get_code dis27 graph_deleted None = Some (Inr (g', c))
        \<and> co_code c = concat [[113, 3, 0], [9], [83]]"
    by blast
  from pre j 1 2 show ?thesis by simp
qed

section \<open>Deleting a node\<close>

lemma redirect_xrefs_frame:
  "opcode (redirect_xrefs h n xs r) = opcode (h r) \<and> addr (redirect_xrefs h n xs r) = addr (h r)
   \<and> oparg (redirect_xrefs h n xs r) = oparg (h r) \<and> prev (redirect_xrefs h n xs r) = prev (h r)
   \<and> nxt (redirect_xrefs h n xs r) = nxt (h r)
   \<and> bc_lnotab (redirect_xrefs h n xs r) = bc_lnotab (h r)"
proof (induction xs arbitrary: h)
  case Nil
  show ?case by simp
next
  case (Cons x xs)
  show ?case by (simp add: Let_def Cons.IH split: option.splits)
qed

lemma redirect_xrefs_target:
  "target (redirect_xrefs h n xs r) = (if r \<in> set xs then nxt (h n) else target (h r))"
proof (induction xs arbitrary: h)
  case Nil
  show ?case by simp
next
  case (Cons x xs)
  show ?case by (simp add: Let_def Cons.IH split: option.splits)
qed

lemma redirect_xrefs_xrefs:
  "xrefs (redirect_xrefs h n xs r)
     = (if nxt (h n) = Some r then xrefs (h r) @ xs else xrefs (h r))"
proof (induction xs arbitrary: h)
  case Nil
  show ?case by simp
next
  case (Cons x xs)
  show ?case by (simp add: Let_def Cons.IH split: option.splits)
qed

lemma unlink_frame:
  "target (unlink_prev h n r) = target (h r) \<and> xrefs (unlink_prev h n r) = xrefs (h r)
   \<and> opcode (unlink_prev h n r) = opcode (h r) \<and> addr (unlink_prev h n r) = addr (h r)
   \<and> prev (unlink_prev h n r) = prev (h r)
   \<and> target (unlink_next h n r) = target (h r) \<and> xrefs (unlink_next h n r) = xrefs (h r)
   \<and> opcode (unlink_next h n r) = opcode (h r) \<and> addr (unlink_next h n r) = addr (h r)
   \<and> nxt (unlink_next h n r) = nxt (h r)"
  by (simp add: unlink_prev_def unlink_next_def split: option.splits)

lemma delete_node_result:
  assumes "delete_node g n = Some (Inr g')"
  shows "\<exists>h. h = unlink_next (unlink_prev (redirect_xrefs (heap g) n (xrefs (heap g n))) n) n
    \<and> heap g' = h \<and> head g' = (if head g = Some n then nxt (h n) else head g)
    \<and> bytecodes g' = (bytecodes g)(addr (h n) := None) \<and> base g' = base g \<and> code g' = code g
    \<and> \<not> (nxt (heap g n) = Some n \<and> xrefs (heap g n) \<noteq> [])"
  using assms by (auto simp: delete_node_def Let_def split: if_splits option.splits)

lemma delete_node_fields:
  assumes "delete_node g n = Some (Inr g')"
  shows "target (heap g' r) = (if r \<in> set (xrefs (heap g n)) then nxt (heap g n) else target (heap g r))"
    and "xrefs (heap g' r)
      = (if nxt (heap g n) = Some r then xrefs (heap g r) @ xrefs (heap g n) else xrefs (heap g r))"
    and "opcode (heap g' r) = opcode (heap g r)" and "addr (heap g' r) = addr (heap g r)"
proof -
  from delete_node_result [OF assms]
  have h: "heap g' = unlink_next (unlink_prev (redirect_xrefs (heap g) n (xrefs (heap g n))) n) n"
    by simp
  show "target (heap g' r) = (if r \<in> set (xrefs (heap g n)) then nxt (heap g n) else target (heap g r))"
    by (simp add: h unlink_frame redirect_xrefs_target)
  show "xrefs (heap g' r)
      = (if nxt (heap g n) = Some r then xrefs (heap g r) @ xrefs (heap g n) else xrefs (heap g r))"
    by (simp add: h unlink_frame redirect_xrefs_xrefs)
  show "opcode (heap g' r) = opcode (heap g r)" "addr (heap g' r) = addr (heap g r)"
    by (simp_all add: h unlink_frame redirect_xrefs_frame)
qed

lemma linked_remove:
  "linked h c (as @ p # n # bs) \<Longrightarrow> distinct (as @ p # n # bs) \<Longrightarrow>
   (\<And>r. r \<noteq> p \<Longrightarrow> nxt (h' r) = nxt (h r)) \<Longrightarrow> nxt (h' p) = nxt (h n) \<Longrightarrow>
   linked h' c (as @ p # bs)"
proof (induction as arbitrary: c)
  case Nil
  then have "linked h (nxt (h n)) bs" and "c = Some p" and "p \<notin> set bs" by auto
  moreover have "linked h' (nxt (h n)) bs = linked h (nxt (h n)) bs"
  proof (rule linked_cong)
    fix r assume "r \<in> set bs"
    with \<open>p \<notin> set bs\<close> have "r \<noteq> p" by auto
    then show "nxt (h' r) = nxt (h r)" by (rule Nil.prems(3))
  qed
  ultimately show ?case using Nil.prems(4) by simp
next
  case (Cons a as)
  then have "a \<noteq> p" and "c = Some a" and "linked h (nxt (h a)) (as @ p # n # bs)"
    and "distinct (as @ p # n # bs)"
    by auto
  with Cons.IH [of "nxt (h a)"] Cons.prems(3,4) show ?case by simp
qed

lemma back_linked_prev: "back_linked h q (as @ p # n # bs) \<Longrightarrow> prev (h n) = Some p"
  by (induction as arbitrary: q) auto

lemma linked_next_in:
  "linked h c ns \<Longrightarrow> n \<in> set ns \<Longrightarrow> nxt (h n) = Some m \<Longrightarrow> m \<in> set ns \<and> m \<noteq> n"
proof -
  assume l: "linked h c ns" and n: "n \<in> set ns" and m: "nxt (h n) = Some m"
  from n obtain as bs where ns: "ns = as @ n # bs" by (auto simp: in_set_conv_decomp)
  from linked_suffix [of h c as n bs] l ns have "linked h (Some n) (n # bs)" by simp
  with m have "linked h (Some m) bs" by simp
  then obtain cs where bs: "bs = m # cs" by (cases bs) auto
  from linked_distinct [OF l] ns bs show ?thesis by auto
qed

lemma delete_node_nodes:
  assumes del: "delete_node g n = Some (Inr g')" and ns: "nodes g None = Some ns"
    and bl: "back_linked (heap g) None ns" and n: "n \<in> set ns"
  shows "nodes g' None = Some (remove1 n ns)"
proof -
  let ?h = "heap g"
  let ?hR = "redirect_xrefs ?h n (xrefs (?h n))"
  let ?h1 = "unlink_prev ?hR n"
  from delete_node_result [OF del] have h': "heap g' = unlink_next ?h1 n"
    and hd': "head g' = (if head g = Some n then nxt (heap g' n) else head g)"
    by simp_all
  have nx2: "nxt (heap g' r) = nxt (?h1 r)" for r by (simp add: h' unlink_frame)
  have nR: "nxt (?hR r) = nxt (?h r)" and pR: "prev (?hR r) = prev (?h r)" for r
    by (simp_all add: redirect_xrefs_frame)
  from ns have l: "linked ?h (head g) ns" by (simp add: nodes_def nodes_from_linked)
  from linked_distinct [OF l] have d: "distinct ns" .
  from n obtain as bs where split: "ns = as @ n # bs" by (auto simp: in_set_conv_decomp)
  with d have nas: "n \<notin> set as" and nbs: "n \<notin> set bs" by auto
  then have rem: "remove1 n ns = as @ bs" by (simp add: split remove1_append)
  have "linked (heap g') (head g') (as @ bs)"
  proof (cases as rule: rev_cases)
    case Nil
    with l bl split have hd: "head g = Some n" and pn: "prev (?h n) = None"
      and rest: "linked ?h (nxt (?h n)) bs"
      by auto
    from pn pR have "?h1 = ?hR" by (simp add: unlink_prev_def)
    with nx2 nR have same: "nxt (heap g' r) = nxt (?h r)" for r by simp
    then have "linked (heap g') (nxt (?h n)) bs = linked ?h (nxt (?h n)) bs"
      by (intro linked_cong) simp
    with rest hd hd' same Nil show ?thesis by simp
  next
    case (snoc as' p)
    with bl split have pn: "prev (?h n) = Some p"
      using back_linked_prev [of ?h None as' p n bs] by simp
    from snoc nas have pne: "p \<noteq> n" by auto
    from pn pR have h1: "?h1 = ?hR(p := (?hR p)\<lparr>nxt := nxt (?hR n)\<rparr>)"
      by (simp add: unlink_prev_def)
    have other: "\<And>r. r \<noteq> p \<Longrightarrow> nxt (heap g' r) = nxt (?h r)"
      by (simp add: nx2 h1 nR)
    have atp: "nxt (heap g' p) = nxt (?h n)" by (simp add: nx2 h1 nR)
    from l split snoc have l': "linked ?h (head g) (as' @ p # n # bs)" by simp
    from d split snoc have d': "distinct (as' @ p # n # bs)" by simp
    from linked_remove [OF l' d' other atp] have "linked (heap g') (head g) (as' @ p # bs)" .
    moreover from l' have "head g \<noteq> Some n"
    proof (cases as')
      case Nil
      with l' pne show ?thesis by auto
    next
      case (Cons a list)
      with l' d' show ?thesis by auto
    qed
    ultimately show ?thesis using hd' snoc by simp
  qed
  then show ?thesis by (simp add: rem nodes_def nodes_from_linked)
qed

lemma returns_bind:
  "returns (bind_result m f) \<Longrightarrow> \<exists>v. m = Some (Inr v) \<and> returns (f v)"
  by (auto simp: returns_def bind_result_def split: option.splits sum.splits)

text \<open>
  C5, as amended. When \<^verbatim>\<open>delete_node(n)\<close> returns for a node \<open>n\<close> with the successor
  \<open>m\<close>, every referrer in the \<^verbatim>\<open>xrefs\<close> of \<open>n\<close> has the target \<open>m\<close> and is in the
  \<^verbatim>\<open>xrefs\<close> of \<open>m\<close>. After a relocation that returns, on a graph with a base of 0 or more
  whose \<^verbatim>\<open>prev\<close> links mirror its \<^verbatim>\<open>next\<close> links, this still holds for every former
  referrer that is a jump-class node of the list other than \<open>n\<close> itself.
\<close>

theorem delete_node_redirect:
  assumes del: "delete_node g n = Some (Inr g1)" and m: "nxt (heap g n) = Some m"
  shows "(\<forall>r\<in>set (xrefs (heap g n)). target (heap g1 r) = Some m \<and> r \<in> set (xrefs (heap g1 m)))
    \<and> (\<forall>ns g2. nodes g None = Some ns \<and> back_linked (heap g) None ns \<and> n \<in> set ns
          \<and> 0 \<le> base g \<and> refactor D g1 = Some (Inr g2) \<longrightarrow>
          (\<forall>r\<in>set (xrefs (heap g n)). r \<in> set ns \<and> r \<noteq> n \<and> is_jump D (heap g r) \<longrightarrow>
             target (heap g2 r) = Some m \<and> r \<in> set (xrefs (heap g2 m))))"
proof -
  have 1: "\<forall>r\<in>set (xrefs (heap g n)). target (heap g1 r) = Some m \<and> r \<in> set (xrefs (heap g1 m))"
  proof
    fix r assume r: "r \<in> set (xrefs (heap g n))"
    with delete_node_fields(1) [OF del, of r] m have "target (heap g1 r) = Some m" by simp
    moreover from r delete_node_fields(2) [OF del, of m] m have "r \<in> set (xrefs (heap g1 m))"
      by simp
    ultimately show "target (heap g1 r) = Some m \<and> r \<in> set (xrefs (heap g1 m))" ..
  qed
  have 2: "target (heap g2 r) = Some m \<and> r \<in> set (xrefs (heap g2 m))"
    if a: "nodes g None = Some ns \<and> back_linked (heap g) None ns \<and> n \<in> set ns
          \<and> 0 \<le> base g \<and> refactor D g1 = Some (Inr g2)"
      and r: "r \<in> set (xrefs (heap g n))"
      and b: "r \<in> set ns \<and> r \<noteq> n \<and> is_jump D (heap g r)"
    for ns g2 r
  proof -
    from a have ns: "nodes g None = Some ns" and bl: "back_linked (heap g) None ns"
      and n: "n \<in> set ns" and base: "0 \<le> base g" and ref: "refactor D g1 = Some (Inr g2)"
      by simp_all
    from delete_node_nodes [OF del ns bl n] have ns1: "nodes g1 None = Some (remove1 n ns)" .
    from ns have l: "linked (heap g) (head g) ns" by (simp add: nodes_def nodes_from_linked)
    from linked_next_in [OF l n m] have "m \<in> set ns" "m \<noteq> n" by simp_all
    then have m1: "m \<in> set (remove1 n ns)" by simp
    from b have r1: "r \<in> set (remove1 n ns)" by simp
    from b delete_node_fields(3) [OF del, of r] have j1: "is_jump D (heap g1 r)"
      by (simp add: is_jump_def)
    from delete_node_fields(1) [OF del, of r] r m have t1: "target (heap g1 r) = Some m" by simp
    from delete_node_result [OF del] base have base1: "0 \<le> base g1" by simp
    from refactor_keeps_target [OF ref base1 ns1 r1 j1 t1 m1] show ?thesis .
  qed
  from 1 2 show ?thesis by blast
qed

text \<open>
  The claim C5 has every former referrer in the \<^verbatim>\<open>xrefs\<close> of the successor after
  relocation. In the graph of \<^verbatim>\<open>JUMP_ABSOLUTE 0; NOP\<close> the jump is its own referrer; after
  \<^verbatim>\<open>delete_node\<close> of the jump and \<^verbatim>\<open>refactor\<close>, the \<^verbatim>\<open>xrefs\<close> of the \<^verbatim>\<open>NOP\<close> are empty.
\<close>

theorem delete_node_redirect_counterexample:
  "xrefs (heap graph_self_jump 0) = [0] \<and> nxt (heap graph_self_jump 0) = Some 1
   \<and> map_result (\<lambda>g. (nodes g None, target (heap g 0), xrefs (heap g 1)))
       (bind_result (delete_node graph_self_jump 0) (refactor dis27))
     = Some (Inr (Some [1], Some 1, []))"
  by code_simp

theorem delete_node_redirect_witness:
  "\<exists>g1 g2. delete_node graph_jump_over 2 = Some (Inr g1) \<and> refactor dis27 g1 = Some (Inr g2)
     \<and> xrefs (heap graph_jump_over 2) = [0] \<and> nxt (heap graph_jump_over 2) = Some 3
     \<and> target (heap g1 0) = Some 3 \<and> 0 \<in> set (xrefs (heap g1 3))
     \<and> target (heap g2 0) = Some 3 \<and> 0 \<in> set (xrefs (heap g2 3))"
proof -
  have "returns (bind_result (delete_node graph_jump_over 2) (refactor dis27))" by code_simp
  from returns_bind [OF this] obtain g1 where g1: "delete_node graph_jump_over 2 = Some (Inr g1)"
    and "returns (refactor dis27 g1)"
    by blast
  then obtain g2 where g2: "refactor dis27 g1 = Some (Inr g2)" by (auto dest: returnsD)
  have pre: "xrefs (heap graph_jump_over 2) = [0]" "nxt (heap graph_jump_over 2) = Some 3"
    "nodes graph_jump_over None = Some [0, 1, 2, 3]"
    "back_linked (heap graph_jump_over) None [0, 1, 2, 3]"
    "base graph_jump_over = 0" "opcode (heap graph_jump_over 0) = 113"
    by code_simp+
  have j: "is_jump dis27 (heap graph_jump_over 0)" by (simp add: is_jump_def pre dis27_def)
  note inst = delete_node_redirect [OF g1 pre(2), of dis27]
  from inst [THEN conjunct1] pre(1)
  have 1: "target (heap g1 0) = Some 3 \<and> 0 \<in> set (xrefs (heap g1 3))" by simp
  from inst [THEN conjunct2, rule_format, of "[0, 1, 2, 3]" g2 0] pre g2 j
  have 3: "target (heap g2 0) = Some 3 \<and> 0 \<in> set (xrefs (heap g2 3))" by simp
  from g1 g2 pre 1 3 show ?thesis by blast
qed






section \<open>The line table\<close>

lemma and_255: "0 \<le> x \<Longrightarrow> x \<le> 255 \<Longrightarrow> (x::int) AND 255 = x"
proof -
  assume "0 \<le> x" "x \<le> 255"
  have "x AND 255 = x AND mask 8" by (simp add: mask_eq_exp_minus_1)
  also have "\<dots> = take_bit 8 x" by (simp add: take_bit_eq_mask)
  also have "\<dots> = x mod 256" by (simp add: take_bit_eq_mod)
  also from \<open>0 \<le> x\<close> \<open>x \<le> 255\<close> have "\<dots> = x" by simp
  finally show ?thesis .
qed

lemma and_255_range: "0 \<le> (x::int) AND 255 \<and> x AND 255 \<le> 255"
proof -
  have "x AND 255 = x AND mask 8" by (simp add: mask_eq_exp_minus_1)
  also have "\<dots> = take_bit 8 x" by (simp add: take_bit_eq_mask)
  also have "\<dots> = x mod 256" by (simp add: take_bit_eq_mod)
  finally have "x AND 255 = x mod 256" .
  then show ?thesis by simp
qed

lemma pack_BB_exact:
  "fits_byte b \<Longrightarrow> fits_byte l \<Longrightarrow> pack_BB b (l AND 255) = Inr [word_of_int b, word_of_int l]"
  by (simp add: pack_BB_def pack_B_def fits_byte_def and_255)

lemma pack_BB_returns: "pack_BB b y = Inr bs \<Longrightarrow> fits_byte b"
  by (auto simp: pack_BB_def pack_B_def fits_byte_def split: if_splits sum.splits)

lemma lnotab_loop_exact:
  "instructions h ns = Some is \<Longrightarrow>
   \<forall>(b, l)\<in>set (line_changes pl po is). fits_byte b \<and> fits_byte l \<Longrightarrow>
   lnotab_loop h acc pl po ns = Inr (acc @ encode_exact (line_changes pl po is))"
proof (induction ns arbitrary: "is" acc pl po)
  case Nil
  then show ?case by (simp add: encode_exact_def)
next
  case (Cons c cs)
  from Cons.prems(1) obtain l rest where l: "bc_lnotab (h c) = Some l"
    and rest: "instructions h cs = Some rest" and "is": "is = (addr (h c), l) # rest"
    by (auto split: option.splits)
  show ?case
  proof (cases "l = pl")
    case True
    with Cons.prems(2) "is" have "\<forall>(b, l)\<in>set (line_changes pl po rest). fits_byte b \<and> fits_byte l"
      by simp
    from Cons.IH [OF rest this] True l "is" show ?thesis by simp
  next
    case False
    with Cons.prems(2) "is" have fb: "fits_byte (addr (h c) - po)" and fl: "fits_byte (l - pl)"
      and more: "\<forall>(b, l)\<in>set (line_changes l (addr (h c)) rest). fits_byte b \<and> fits_byte l"
      by simp_all
    from Cons.IH [OF rest more] False l "is" pack_BB_exact [OF fb fl]
    show ?thesis by (simp add: encode_exact_def)
  qed
qed

lemma lnotab_loop_returns:
  "lnotab_loop h acc pl po ns = Inr bs \<Longrightarrow> instructions h ns = Some is \<Longrightarrow>
   \<forall>(b, l)\<in>set (line_changes pl po is). fits_byte b"
proof (induction ns arbitrary: "is" acc pl po)
  case Nil
  then show ?case by simp
next
  case (Cons c cs)
  from Cons.prems(2) obtain l rest where l: "bc_lnotab (h c) = Some l"
    and rest: "instructions h cs = Some rest" and "is": "is = (addr (h c), l) # rest"
    by (auto split: option.splits)
  show ?case
  proof (cases "l = pl")
    case True
    with Cons.prems(1) l have "lnotab_loop h acc pl po cs = Inr bs" by simp
    from Cons.IH [OF this rest] True "is" show ?thesis by simp
  next
    case False
    with Cons.prems(1) l obtain pr where pr: "pack_BB (addr (h c) - po) ((l - pl) AND 255) = Inr pr"
      and loop: "lnotab_loop h (acc @ pr) l (addr (h c)) cs = Inr bs"
      by (auto simp: Let_def split: sum.splits)
    from Cons.IH [OF loop rest] pack_BB_returns [OF pr] False "is" show ?thesis by simp
  qed
qed

text \<open>
  C9, as amended. Walking the nodes of the list in order, with their addresses and lines,
  let the deltas be one (byte-delta, line-delta) pair for each node whose line differs from
  the line of the node before it, counted from the last such node (from the first line and
  the address of the head before the first pair). When every delta fits an unsigned byte,
  \<^verbatim>\<open>calc_lnotab\<close> returns exactly these pairs, and nothing for the other nodes. A
  byte-delta is never clamped: whenever \<^verbatim>\<open>calc_lnotab\<close> returns, every byte-delta was
  between 0 and 255.
\<close>

theorem calc_lnotab_deltas:
  assumes "head g = Some first" and "nodes g None = Some ns"
    and "instructions (heap g) ns = Some is"
  shows "((\<forall>(b, l)\<in>set (line_changes (co_firstlineno (code g)) (addr (heap g first)) is).
            fits_byte b \<and> fits_byte l) \<longrightarrow>
          calc_lnotab g = Some (Inr (encode_exact
            (line_changes (co_firstlineno (code g)) (addr (heap g first)) is))))
    \<and> (\<forall>bs. calc_lnotab g = Some (Inr bs) \<longrightarrow>
          (\<forall>(b, l)\<in>set (line_changes (co_firstlineno (code g)) (addr (heap g first)) is).
             fits_byte b))"
proof (intro conjI allI impI)
  assume "\<forall>(b, l)\<in>set (line_changes (co_firstlineno (code g)) (addr (heap g first)) is).
            fits_byte b \<and> fits_byte l"
  from lnotab_loop_exact [OF assms(3) this, of "[]"] assms(1,2)
  show "calc_lnotab g = Some (Inr (encode_exact
            (line_changes (co_firstlineno (code g)) (addr (heap g first)) is)))"
    by (simp add: calc_lnotab_nodes [OF assms(1,2)])
next
  fix bs assume "calc_lnotab g = Some (Inr bs)"
  with assms(1,2)
  have "lnotab_loop (heap g) [] (co_firstlineno (code g)) (addr (heap g first)) ns = Inr bs"
    by (simp add: calc_lnotab_nodes [OF assms(1,2)])
  from lnotab_loop_returns [OF this assms(3)]
  show "\<forall>(b, l)\<in>set (line_changes (co_firstlineno (code g)) (addr (heap g first)) is).
             fits_byte b" .
qed

text \<open>
  The claim C9 has each delta clamped to 0-255. For the nodes at the addresses 0 and 300 on
  the lines 1 and 2 the clamped pair is (255, 1); \<^verbatim>\<open>calc_lnotab\<close> passes the byte-delta
  300 to \<^verbatim>\<open>struct.pack\<close>, which raises.
\<close>

theorem calc_lnotab_clamp_counterexample:
  "nodes graph_gap None = Some [0, 1]
   \<and> map_option (\<lambda>is. encode_clamped (line_changes 1 0 is)) (instructions (heap graph_gap) [0, 1])
       = Some [255, 1]
   \<and> calc_lnotab graph_gap = Some (Inl StructError)"
  by code_simp

theorem calc_lnotab_deltas_witness:
  "head graph_deleted = Some 0 \<and> nodes graph_deleted None = Some [0, 2, 3]
   \<and> instructions (heap graph_deleted) [0, 2, 3] = Some [(0, 2), (4, 3), (5, 3)]
   \<and> line_changes 1 0 [(0, 2), (4, 3), (5, 3)] = [(0, 1), (4, 1)]
   \<and> calc_lnotab graph_deleted = Some (Inr [0, 1, 4, 1])"
proof -
  have pre: "head graph_deleted = Some 0" "nodes graph_deleted None = Some [0, 2, 3]"
    "instructions (heap graph_deleted) [0, 2, 3] = Some [(0, 2), (4, 3), (5, 3)]"
    "co_firstlineno (code graph_deleted) = 1" "addr (heap graph_deleted 0) = 0"
    by code_simp+
  have lc: "line_changes 1 0 [(0, 2), (4, 3), (5, 3)] = [(0, 1), (4, 1)]" by simp
  from calc_lnotab_deltas [OF pre(1,2,3)] pre(4,5) lc
  have "calc_lnotab graph_deleted = Some (Inr (encode_exact [(0, 1), (4, 1)]))"
    by (simp add: fits_byte_def)
  then have "calc_lnotab graph_deleted = Some (Inr [0, 1, 4, 1])"
    by (simp add: encode_exact_def)
  with pre lc show ?thesis by simp
qed

end
